theory Spec2Isabelle
  imports Complex_Main "HOL-Library.Word"
begin

section \<open>Pixels, bitmaps and the canvas operations used by the tile processor\<close>

text \<open>
  The tile processor (\<^verbatim>\<open>src/services/tileProcessor.ts\<close>) works on browser canvases.
  The embedding keeps what the source reads and writes of them: a width, a height and one
  RGBA sample of four bytes per pixel. A bitmap stands for the decoded source image,
  whose samples are the bytes of the image (straight alpha), and for the backing store
  of a canvas, whose samples are premultiplied by alpha, as the 2D canvases of browsers
  keep them. The numbers of the source are naturals (the user interface passes
  \<^verbatim>\<open>Math.max(1, parseInt(..) || 48)\<close> as tile size and 8 as column count).
\<close>

type_synonym byte = "8 word"

type_synonym pixel = "byte \<times> byte \<times> byte \<times> byte"

definition transparent :: pixel where
  "transparent = (0, 0, 0, 0)"

fun alpha :: "pixel \<Rightarrow> byte" where
  "alpha (r, g, b, a) = a"

fun pixelBytes :: "pixel \<Rightarrow> byte list" where
  "pixelBytes (r, g, b, a) = [r, g, b, a]"

text \<open>
  Premultiplied samples. A sample that is drawn from an image onto a canvas has each
  colour channel multiplied by \<open>alpha / 255\<close>, rounded to the nearest integer; a sample
  that is read from a canvas (by \<^verbatim>\<open>getImageData\<close> or \<^verbatim>\<open>toDataURL\<close>) has it divided
  out again, rounded to the nearest integer. Alpha itself is kept. So an opaque sample
  is kept exactly, a partly transparent one may lose low-order colour bits, and a fully
  transparent one loses its colour.
\<close>

definition scaleByAlpha :: "byte \<Rightarrow> byte \<Rightarrow> byte" where
  "scaleByAlpha c a = of_nat ((unat c * unat a + 127) div 255)"

definition unscaleByAlpha :: "byte \<Rightarrow> byte \<Rightarrow> byte" where
  "unscaleByAlpha c a = of_nat (min 255 ((unat c * 255 + unat a div 2) div unat a))"

fun premultiply :: "pixel \<Rightarrow> pixel" where
  "premultiply (r, g, b, a) = (scaleByAlpha r a, scaleByAlpha g a, scaleByAlpha b a, a)"

fun unpremultiply :: "pixel \<Rightarrow> pixel" where
  "unpremultiply (r, g, b, a) =
     (if a = 0 then transparent
      else (unscaleByAlpha r a, unscaleByAlpha g a, unscaleByAlpha b a, a))"

record bitmap =
  bwidth :: nat
  bheight :: nat
  pixelAt :: "nat \<Rightarrow> nat \<Rightarrow> pixel"

text \<open>A canvas whose width and height have just been set: every pixel transparent black.\<close>

definition createCanvas :: "nat \<Rightarrow> nat \<Rightarrow> bitmap" where
  "createCanvas w h = \<lparr>bwidth = w, bheight = h, pixelAt = (\<lambda>i j. transparent)\<rparr>"

text \<open>\<^verbatim>\<open>ctx.clearRect(x, y, w, h)\<close>: the rectangle becomes transparent black.\<close>

definition clearRect :: "bitmap \<Rightarrow> nat \<Rightarrow> nat \<Rightarrow> nat \<Rightarrow> nat \<Rightarrow> bitmap" where
  "clearRect c x y w h =
     c\<lparr>pixelAt := (\<lambda>i j. if x \<le> i \<and> i < x + w \<and> y \<le> j \<and> j < y + h
                           then transparent else pixelAt c i j)\<rparr>"

text \<open>
  Source-over compositing of one premultiplied sample onto another. Onto transparent
  black the source sample is the result, a fully transparent source leaves the
  destination, an opaque source replaces it; the remaining case is the browser's blending
  arithmetic, a parameter. The tile processor only ever draws onto cleared pixels.
\<close>

definition sourceOver :: "(pixel \<Rightarrow> pixel \<Rightarrow> pixel) \<Rightarrow> pixel \<Rightarrow> pixel \<Rightarrow> pixel" where
  "sourceOver blend s d =
     (if d = transparent then s
      else if alpha s = 0 then d
      else if alpha s = 255 then s
      else blend s d)"

text \<open>
  Compositing the rectangle \<open>(sx, sy, sw, sh)\<close> of premultiplied samples \<open>src\<close> onto the
  canvas \<open>dst\<close> at \<open>(dx, dy)\<close>, without scaling. The part of the source rectangle that
  lies outside the source, and the part of the destination rectangle outside the
  destination, are not drawn.
\<close>

definition drawSamples ::
  "(pixel \<Rightarrow> pixel \<Rightarrow> pixel) \<Rightarrow> bitmap \<Rightarrow> bitmap \<Rightarrow> nat \<Rightarrow> nat \<Rightarrow> nat \<Rightarrow> nat \<Rightarrow> nat \<Rightarrow> nat \<Rightarrow> bitmap" where
  "drawSamples blend dst src sx sy sw sh dx dy =
     dst\<lparr>pixelAt := (\<lambda>i j.
        if dx \<le> i \<and> i < dx + sw \<and> dy \<le> j \<and> j < dy + sh
           \<and> i < bwidth dst \<and> j < bheight dst
           \<and> sx + (i - dx) < bwidth src \<and> sy + (j - dy) < bheight src
        then sourceOver blend (pixelAt src (sx + (i - dx)) (sy + (j - dy))) (pixelAt dst i j)
        else pixelAt dst i j)\<rparr>"

text \<open>The decoded image in the sample format of a canvas.\<close>

definition premultiplied :: "bitmap \<Rightarrow> bitmap" where
  "premultiplied img = img\<lparr>pixelAt := (\<lambda>i j. premultiply (pixelAt img i j))\<rparr>"

text \<open>
  \<^verbatim>\<open>ctx.drawImage(image, sx, sy, sw, sh, dx, dy, sw, sh)\<close> with the decoded source image:
  the source always passes the destination size equal to the source size, so nothing is
  scaled; the samples of the image are premultiplied on their way into the canvas.
\<close>

definition drawImage ::
  "(pixel \<Rightarrow> pixel \<Rightarrow> pixel) \<Rightarrow> bitmap \<Rightarrow> bitmap \<Rightarrow> nat \<Rightarrow> nat \<Rightarrow> nat \<Rightarrow> nat \<Rightarrow> nat \<Rightarrow> nat \<Rightarrow> bitmap" where
  "drawImage blend dst img sx sy sw sh dx dy =
     drawSamples blend dst (premultiplied img) sx sy sw sh dx dy"

text \<open>
  \<^verbatim>\<open>ctx.drawImage(canvas, dx, dy)\<close> with another canvas: the whole canvas at its own
  size; its samples are premultiplied already.
\<close>

definition drawImageAt ::
  "(pixel \<Rightarrow> pixel \<Rightarrow> pixel) \<Rightarrow> bitmap \<Rightarrow> bitmap \<Rightarrow> nat \<Rightarrow> nat \<Rightarrow> bitmap" where
  "drawImageAt blend dst canvas dx dy =
     drawSamples blend dst canvas 0 0 (bwidth canvas) (bheight canvas) dx dy"

text \<open>The samples of a canvas as they are read: alpha divided out again.\<close>

definition straight :: "bitmap \<Rightarrow> bitmap" where
  "straight c = c\<lparr>pixelAt := (\<lambda>i j. unpremultiply (pixelAt c i j))\<rparr>"

text \<open>
  The pixels of a rectangle of a bitmap, row by row, and their bytes, four bytes
  (r, g, b, a) per pixel; pixels outside the bitmap read as transparent black.
\<close>

definition regionPixels :: "bitmap \<Rightarrow> nat \<Rightarrow> nat \<Rightarrow> nat \<Rightarrow> nat \<Rightarrow> pixel list" where
  "regionPixels c sx sy sw sh =
     concat (map (\<lambda>j. map (\<lambda>i.
        if sx + i < bwidth c \<and> sy + j < bheight c
        then pixelAt c (sx + i) (sy + j) else transparent) [0..<sw]) [0..<sh])"

definition regionBytes :: "bitmap \<Rightarrow> nat \<Rightarrow> nat \<Rightarrow> nat \<Rightarrow> nat \<Rightarrow> byte list" where
  "regionBytes c sx sy sw sh = concat (map pixelBytes (regionPixels c sx sy sw sh))"

text \<open>
  A 2D rendering context, as far as \<^verbatim>\<open>detectCollision\<close> uses it: its method
  \<^verbatim>\<open>getImageData(sx, sy, sw, sh)\<close>, which returns the bytes of the region or throws
  (\<open>None\<close>).
\<close>

record ctx2d =
  getImageData :: "nat \<Rightarrow> nat \<Rightarrow> nat \<Rightarrow> nat \<Rightarrow> byte list option"

text \<open>
  The context of a canvas of the processor: \<^verbatim>\<open>getImageData\<close> throws an IndexSizeError on
  an empty rectangle and returns the bytes of the rectangle, as they are read from the
  canvas, otherwise.
\<close>

definition getContext :: "bitmap \<Rightarrow> ctx2d" where
  "getContext c =
     \<lparr>getImageData = (\<lambda>sx sy sw sh.
        if sw = 0 \<or> sh = 0 then None else Some (regionBytes (straight c) sx sy sw sh))\<rparr>"

section \<open>detectCollision\<close>

text \<open>
  The loop \<^verbatim>\<open>for (let i = 3; i < pixels.length; i += 4) if (pixels[i] > 10) solidPixels++\<close>,
  with the loop variable and the counter as arguments.
\<close>

function countSolid :: "byte list \<Rightarrow> nat \<Rightarrow> nat \<Rightarrow> nat" where
  "countSolid pixels i solidPixels =
     (if i < length pixels
      then countSolid pixels (i + 4) (if pixels ! i > 10 then solidPixels + 1 else solidPixels)
      else solidPixels)"
  by pat_completeness auto
termination
  by (relation "measure (\<lambda>(pixels, i, solidPixels). length pixels - i)") auto

declare countSolid.simps [simp del]

text \<open>
  \<^verbatim>\<open>(solidPixels / totalPixels) > 0.75\<close> on JavaScript numbers. Both operands are
  integers; with a zero divisor the quotient is Infinity (greater than 0.75) for a positive
  count and NaN (every comparison false) for a zero count. Otherwise the quotient is
  compared as a real number: the rounding to a double cannot move a quotient of integers
  across 0.75 unless the divisor exceeds \<open>2 ^ 52\<close>.
\<close>

definition ratioAbove :: "nat \<Rightarrow> nat \<Rightarrow> bool" where
  "ratioAbove solidPixels totalPixels =
     (if totalPixels = 0 then 0 < solidPixels
      else real solidPixels / real totalPixels > 0.75)"

definition detectCollision :: "ctx2d \<Rightarrow> nat \<Rightarrow> bool" where
  "detectCollision ctx sz =
     (case getImageData ctx 0 0 sz sz of
        None \<Rightarrow> False
      | Some pixels \<Rightarrow>
          (let solidPixels = countSolid pixels 3 0;
               totalPixels = sz * sz
           in ratioAbove solidPixels totalPixels))"

section \<open>The data of the tile processor\<close>

datatype mode = Original | Optimized

record ProcessOptions =
  opt_tileSize :: nat
  opt_mode :: mode
  opt_columns :: "nat option"

text \<open>
  The coordinates of a tile are JavaScript numbers: with a column count of zero the
  layout arithmetic of Optimized mode yields \<^verbatim>\<open>NaN\<close> and \<^verbatim>\<open>Infinity\<close>.
\<close>

datatype jsnumber = Finite nat | Infinity | NaN

text \<open>\<^verbatim>\<open>i % n\<close>, \<^verbatim>\<open>Math.floor(i / n)\<close> and \<^verbatim>\<open>Math.ceil(i / n)\<close> on naturals.\<close>

definition remainder :: "nat \<Rightarrow> nat \<Rightarrow> jsnumber" where
  "remainder i n = (if n = 0 then NaN else Finite (i mod n))"

definition floorQuotient :: "nat \<Rightarrow> nat \<Rightarrow> jsnumber" where
  "floorQuotient i n =
     (if n = 0 then (if i = 0 then NaN else Infinity) else Finite (i div n))"

definition ceilQuotient :: "nat \<Rightarrow> nat \<Rightarrow> jsnumber" where
  "ceilQuotient i n =
     (if n = 0 then (if i = 0 then NaN else Infinity) else Finite (nat \<lceil>real i / real n\<rceil>))"

text \<open>The product of a number and a natural.\<close>

definition multiply :: "jsnumber \<Rightarrow> nat \<Rightarrow> jsnumber" where
  "multiply v n =
     (case v of
        Finite a \<Rightarrow> Finite (a * n)
      | Infinity \<Rightarrow> if n = 0 then NaN else Infinity
      | NaN \<Rightarrow> NaN)"

text \<open>
  Assigning a number to \<^verbatim>\<open>canvas.width\<close> or \<^verbatim>\<open>canvas.height\<close> converts it to an
  unsigned long: \<^verbatim>\<open>NaN\<close> and \<^verbatim>\<open>Infinity\<close> become 0.
\<close>

definition toUnsignedLong :: "jsnumber \<Rightarrow> nat" where
  "toUnsignedLong v = (case v of Finite a \<Rightarrow> a | _ \<Rightarrow> 0)"

text \<open>\<^verbatim>\<open>TileData\<close>: the fields \<^verbatim>\<open>id\<close>, \<^verbatim>\<open>x\<close>, \<^verbatim>\<open>y\<close> and \<^verbatim>\<open>isSolid\<close>.\<close>

record TileData =
  tile_id :: nat
  tile_x :: jsnumber
  tile_y :: jsnumber
  isSolid :: bool

record ProcessResult =
  dataUrl :: string
  width :: nat
  height :: nat
  totalTiles :: nat
  uniqueTiles :: nat
  tiles :: "TileData list"
  jsonContent :: string

text \<open>The three \<^verbatim>\<open>throw new Error(..)\<close> of \<^verbatim>\<open>processImage\<close>, in source order.\<close>

datatype error = InvalidDimensions | TempContextUnavailable | ResultContextUnavailable

text \<open>
  What the browser contributes to one run: the PNG encoder behind
  \<^verbatim>\<open>canvas.toDataURL('image/png')\<close> (a function of the size of the canvas and of the
  bytes read from it), the blending arithmetic, whether each \<^verbatim>\<open>getContext('2d')\<close> yields
  a context (for the scratch canvas, the result canvas, and the k-th tile canvas
  created), the place at which a \<^verbatim>\<open>Map\<close> that holds the given keys puts a new key in its
  order of iteration, and the text of \<^verbatim>\<open>new Date().toISOString()\<close>. ECMAScript iterates
  a \<^verbatim>\<open>Map\<close> in the order of insertion, the new key last; the place is left open here so
  that what a run owes to the order of the map shows.
\<close>

record browser =
  encodePNG :: "nat \<Rightarrow> nat \<Rightarrow> byte list \<Rightarrow> string"
  blend :: "pixel \<Rightarrow> pixel \<Rightarrow> pixel"
  tempContext :: bool
  resultContext :: bool
  tileContext :: "nat \<Rightarrow> bool"
  mapSlot :: "string list \<Rightarrow> string \<Rightarrow> nat"
  now :: string

text \<open>
  \<^verbatim>\<open>canvas.toDataURL('image/png')\<close>: the text \<^verbatim>\<open>data:,\<close> for a canvas without pixels,
  and the encoding of the bytes read from the canvas otherwise.
\<close>

definition toDataURL :: "browser \<Rightarrow> bitmap \<Rightarrow> string" where
  "toDataURL env c =
     (if bwidth c = 0 \<or> bheight c = 0 then ''data:,''
      else encodePNG env (bwidth c) (bheight c)
             (regionBytes (straight c) 0 0 (bwidth c) (bheight c)))"

text \<open>
  A \<^verbatim>\<open>Map\<close> from fingerprints to canvases, as the list of its entries in the order of
  iteration, with its methods \<^verbatim>\<open>has\<close> and \<^verbatim>\<open>set\<close>.
\<close>

type_synonym tileMap = "(string \<times> bitmap) list"

definition Map_has :: "tileMap \<Rightarrow> string \<Rightarrow> bool" where
  "Map_has m k = (k \<in> set (map fst m))"

definition Map_set :: "(string list \<Rightarrow> string \<Rightarrow> nat) \<Rightarrow> tileMap \<Rightarrow> string \<Rightarrow> bitmap \<Rightarrow> tileMap" where
  "Map_set slot m k v =
     (if Map_has m k then map (\<lambda>e. if fst e = k then (k, v) else e) m
      else take (slot (map fst m) k) m @ [(k, v)] @ drop (slot (map fst m) k) m)"

section \<open>The manifest and JSON.stringify\<close>

text \<open>
  Modelled from the spec: \<^verbatim>\<open>JSON.stringify\<close> and \<^verbatim>\<open>JSON.parse\<close> are the browser's and
  are missing from the repository. The manifest is a JSON text of the schema of section 6
  of the spec; it is written here as \<^verbatim>\<open>JSON.stringify(value, null, 2)\<close> of ECMAScript
  writes a value made of objects, arrays, strings, booleans, null and natural numbers,
  and read back as \<^verbatim>\<open>JSON.parse\<close> reads such a text. Strings are byte strings.
\<close>

datatype json =
    JNull
  | JNumber nat
  | JBool bool
  | JString string
  | JArray "json list"
  | JObject "(string \<times> json) list"

text \<open>
  Decimal digits of a natural number, as \<^verbatim>\<open>Number.prototype.toString\<close> prints an
  integer below \<open>10\<^sup>2\<^sup>1\<close>.
\<close>

definition digitChar :: "nat \<Rightarrow> char" where
  "digitChar d = char_of (48 + d)"

fun showNat :: "nat \<Rightarrow> string" where
  "showNat n = (if n < 10 then [digitChar n] else showNat (n div 10) @ [digitChar (n mod 10)])"

declare showNat.simps [simp del]

definition hexChar :: "nat \<Rightarrow> char" where
  "hexChar d = (if d < 10 then char_of (48 + d) else char_of (87 + d))"

text \<open>
  \<^verbatim>\<open>QuoteJSONString\<close>: the quote and the backslash are escaped, control characters are
  written as \<^verbatim>\<open>\b \t \n \f \r\<close> or \<^verbatim>\<open>\u00XX\<close>, every other character stands for
  itself.
\<close>

definition escapeChar :: "char \<Rightarrow> string" where
  "escapeChar c =
     (if c = CHR 0x08 then [CHR 0x5C, CHR ''b'']
      else if c = CHR 0x09 then [CHR 0x5C, CHR ''t'']
      else if c = CHR 0x0A then [CHR 0x5C, CHR ''n'']
      else if c = CHR 0x0C then [CHR 0x5C, CHR ''f'']
      else if c = CHR 0x0D then [CHR 0x5C, CHR ''r'']
      else if c = CHR 0x22 then [CHR 0x5C, CHR 0x22]
      else if c = CHR 0x5C then [CHR 0x5C, CHR 0x5C]
      else if (of_char c :: nat) < 32
        then [CHR 0x5C, CHR ''u'', CHR ''0'', CHR ''0'',
              hexChar (of_char c div 16), hexChar (of_char c mod 16)]
      else [c])"

definition quoteJSONString :: "string \<Rightarrow> string" where
  "quoteJSONString s = [CHR 0x22] @ concat (map escapeChar s) @ [CHR 0x22]"

text \<open>The items of an object or array, separated by a comma, a line break and the indentation.\<close>

fun joinWith :: "string \<Rightarrow> string list \<Rightarrow> string" where
  "joinWith sep [] = []"
| "joinWith sep [s] = s"
| "joinWith sep (s # t # ss) = s @ sep @ joinWith sep (t # ss)"

text \<open>
  \<^verbatim>\<open>JSON.stringify(value, null, 2)\<close>: \<open>ind\<close> is the current indentation, the gap is two
  spaces. An empty array or object is written without line breaks.
\<close>

fun stringify :: "string \<Rightarrow> json \<Rightarrow> string" where
  "stringify ind JNull = ''null''"
| "stringify ind (JNumber n) = showNat n"
| "stringify ind (JBool b) = (if b then ''true'' else ''false'')"
| "stringify ind (JString s) = quoteJSONString s"
| "stringify ind (JArray vs) =
     (if vs = [] then ''[]''
      else ''['' @ [CHR 0x0A] @ (ind @ ''  '')
           @ joinWith ('','' @ [CHR 0x0A] @ (ind @ ''  ''))
               (map (\<lambda>v. stringify (ind @ ''  '') v) vs)
           @ [CHR 0x0A] @ ind @ '']'')"
| "stringify ind (JObject ps) =
     (if ps = [] then ''{}''
      else ''{'' @ [CHR 0x0A] @ (ind @ ''  '')
           @ joinWith ('','' @ [CHR 0x0A] @ (ind @ ''  ''))
               (map (\<lambda>p. quoteJSONString (fst p) @ '': '' @ stringify (ind @ ''  '') (snd p)) ps)
           @ [CHR 0x0A] @ ind @ ''}'')"

definition JSON_stringify :: "json \<Rightarrow> string" where
  "JSON_stringify v = stringify [] v"

subsection \<open>JSON.parse\<close>

definition isWs :: "char \<Rightarrow> bool" where
  "isWs c = (c = CHR '' '' \<or> c = CHR 0x0A \<or> c = CHR 0x0D \<or> c = CHR 0x09)"

definition skipWs :: "string \<Rightarrow> string" where
  "skipWs s = dropWhile isWs s"

definition isDigit :: "char \<Rightarrow> bool" where
  "isDigit c = (48 \<le> (of_char c :: nat) \<and> (of_char c :: nat) \<le> 57)"

definition digitVal :: "char \<Rightarrow> nat" where
  "digitVal c = of_char c - 48"

definition readNat :: "string \<Rightarrow> nat" where
  "readNat ds = foldl (\<lambda>a c. 10 * a + digitVal c) 0 ds"

definition hexVal :: "char \<Rightarrow> nat option" where
  "hexVal c =
     (let n = (of_char c :: nat)
      in if 48 \<le> n \<and> n \<le> 57 then Some (n - 48)
         else if 97 \<le> n \<and> n \<le> 102 then Some (n - 87)
         else if 65 \<le> n \<and> n \<le> 70 then Some (n - 55)
         else None)"

text \<open>The character of a two-character escape sequence, after the backslash.\<close>

definition unescape :: "char \<Rightarrow> char option" where
  "unescape e =
     (if e = CHR 0x22 then Some (CHR 0x22)
      else if e = CHR 0x5C then Some (CHR 0x5C)
      else if e = CHR ''/'' then Some (CHR ''/'')
      else if e = CHR ''b'' then Some (CHR 0x08)
      else if e = CHR ''f'' then Some (CHR 0x0C)
      else if e = CHR ''n'' then Some (CHR 0x0A)
      else if e = CHR ''r'' then Some (CHR 0x0D)
      else if e = CHR ''t'' then Some (CHR 0x09)
      else None)"

text \<open>
  The code unit of \<^verbatim>\<open>\uXXXX\<close>; a code unit beyond one byte is outside the strings of
  this model.
\<close>

definition unicodeEscape :: "char \<Rightarrow> char \<Rightarrow> char \<Rightarrow> char \<Rightarrow> char option" where
  "unicodeEscape h1 h2 h3 h4 =
     (case (hexVal h1, hexVal h2, hexVal h3, hexVal h4) of
        (Some a, Some b, Some c, Some d) \<Rightarrow>
          (if a = 0 \<and> b = 0 then Some (char_of (16 * c + d)) else None)
      | _ \<Rightarrow> None)"

text \<open>
  The characters of a string literal after its opening quote, up to the closing quote:
  the string and the text that follows. An unescaped control character, an unknown
  escape and a missing closing quote are syntax errors.
\<close>

fun parseString :: "string \<Rightarrow> (string \<times> string) option" where
  "parseString [] = None"
| "parseString (c # cs) =
     (if c = CHR 0x22 then Some ([], cs)
      else if c = CHR 0x5C then
        (case cs of
           [] \<Rightarrow> None
         | e # es \<Rightarrow>
             if e = CHR ''u'' then
               (case es of
                  h1 # h2 # h3 # h4 # rest \<Rightarrow>
                    (case unicodeEscape h1 h2 h3 h4 of
                       None \<Rightarrow> None
                     | Some ch \<Rightarrow> map_option (apfst (Cons ch)) (parseString rest))
                | _ \<Rightarrow> None)
             else
               (case unescape e of
                  None \<Rightarrow> None
                | Some ch \<Rightarrow> map_option (apfst (Cons ch)) (parseString es)))
      else if (of_char c :: nat) < 32 then None
      else map_option (apfst (Cons c)) (parseString cs))"

text \<open>
  A number literal of digits only: no leading zero before another digit; a fraction or
  an exponent is outside the naturals of this model.
\<close>

definition parseNumber :: "string \<Rightarrow> (json \<times> string) option" where
  "parseNumber s =
     (let ds = takeWhile isDigit s;
          rest = dropWhile isDigit s
      in if ds = [] then None
         else if hd ds = CHR ''0'' \<and> 1 < length ds then None
         else if rest \<noteq> [] \<and> (hd rest = CHR ''.'' \<or> hd rest = CHR ''e'' \<or> hd rest = CHR ''E'')
           then None
         else Some (JNumber (readNat ds), rest))"

definition parseLiteral :: "string \<Rightarrow> (json \<times> string) option" where
  "parseLiteral s =
     (if take 4 s = ''true'' then Some (JBool True, drop 4 s)
      else if take 5 s = ''false'' then Some (JBool False, drop 5 s)
      else if take 4 s = ''null'' then Some (JNull, drop 4 s)
      else None)"

text \<open>
  The recursive descent over values, the elements of an array (after its bracket) and
  the members of an object (after its brace). The first argument bounds the depth of the
  calls; \<open>JSON_parse\<close> passes more than the length of the text, which no descent exceeds.
\<close>

fun parseValue :: "nat \<Rightarrow> string \<Rightarrow> (json \<times> string) option"
  and parseElements :: "nat \<Rightarrow> string \<Rightarrow> (json list \<times> string) option"
  and parseMembers :: "nat \<Rightarrow> string \<Rightarrow> ((string \<times> json) list \<times> string) option" where
  "parseValue 0 s = None"
| "parseValue (Suc n) s =
     (case skipWs s of
        [] \<Rightarrow> None
      | c # cs \<Rightarrow>
          if c = CHR ''{'' then
            (case skipWs cs of
               [] \<Rightarrow> None
             | d # ds \<Rightarrow> if d = CHR ''}'' then Some (JObject [], ds)
                         else map_option (apfst JObject) (parseMembers n (d # ds)))
          else if c = CHR ''['' then
            (case skipWs cs of
               [] \<Rightarrow> None
             | d # ds \<Rightarrow> if d = CHR '']'' then Some (JArray [], ds)
                         else map_option (apfst JArray) (parseElements n (d # ds)))
          else if c = CHR 0x22 then map_option (apfst JString) (parseString cs)
          else if isDigit c then parseNumber (c # cs)
          else parseLiteral (c # cs))"
| "parseElements 0 s = None"
| "parseElements (Suc n) s =
     (case parseValue n s of
        None \<Rightarrow> None
      | Some (v, rest) \<Rightarrow>
          (case skipWs rest of
             [] \<Rightarrow> None
           | c # cs \<Rightarrow>
               if c = CHR '','' then map_option (apfst (Cons v)) (parseElements n cs)
               else if c = CHR '']'' then Some ([v], cs)
               else None))"
| "parseMembers 0 s = None"
| "parseMembers (Suc n) s =
     (case skipWs s of
        [] \<Rightarrow> None
      | q # cs \<Rightarrow>
          if q \<noteq> CHR 0x22 then None
          else
            (case parseString cs of
               None \<Rightarrow> None
             | Some (k, rest) \<Rightarrow>
                 (case skipWs rest of
                    [] \<Rightarrow> None
                  | c # cs' \<Rightarrow>
                      if c \<noteq> CHR '':'' then None
                      else
                        (case parseValue n cs' of
                           None \<Rightarrow> None
                         | Some (v, rest') \<Rightarrow>
                             (case skipWs rest' of
                                [] \<Rightarrow> None
                              | d # ds \<Rightarrow>
                                  if d = CHR '','' then
                                    map_option (apfst (Cons (k, v))) (parseMembers n ds)
                                  else if d = CHR ''}'' then Some ([(k, v)], ds)
                                  else None)))))"

text \<open>\<^verbatim>\<open>JSON.parse(text)\<close>: one value, with nothing but white space after it.\<close>

definition JSON_parse :: "string \<Rightarrow> json option" where
  "JSON_parse s =
     (case parseValue (Suc (length s)) s of
        None \<Rightarrow> None
      | Some (v, rest) \<Rightarrow> if skipWs rest = [] then Some v else None)"

text \<open>
  Reading the manifest as its consumer does: the property \<open>k\<close> of an object (the last one
  of that name), and the list of (id, collision) pairs of its \<^verbatim>\<open>tiles\<close> array.
\<close>

definition property :: "string \<Rightarrow> json \<Rightarrow> json option" where
  "property k v = (case v of JObject ps \<Rightarrow> map_of (rev ps) k | _ \<Rightarrow> None)"

definition tileEntry :: "json \<Rightarrow> (nat \<times> bool) option" where
  "tileEntry v =
     (case (property ''id'' v, property ''collision'' v) of
        (Some (JNumber i), Some (JBool b)) \<Rightarrow> Some (i, b)
      | _ \<Rightarrow> None)"

fun allEntries :: "json list \<Rightarrow> (nat \<times> bool) list option" where
  "allEntries [] = Some []"
| "allEntries (v # vs) =
     (case tileEntry v of
        None \<Rightarrow> None
      | Some e \<Rightarrow> map_option (Cons e) (allEntries vs))"

definition manifestTiles :: "json \<Rightarrow> (nat \<times> bool) list option" where
  "manifestTiles v =
     (case property ''tiles'' v of
        Some (JArray vs) \<Rightarrow> allEntries vs
      | _ \<Rightarrow> None)"

definition modeName :: "mode \<Rightarrow> string" where
  "modeName m = (case m of Original \<Rightarrow> ''original'' | Optimized \<Rightarrow> ''optimized'')"

text \<open>
  The object \<^verbatim>\<open>jsonOutput\<close> of \<^verbatim>\<open>processImage\<close>; \<open>width'\<close> and \<open>height'\<close> are
  \<^verbatim>\<open>resultCanvas.width\<close> and \<^verbatim>\<open>resultCanvas.height\<close>.
\<close>

definition jsonOutput :: "browser \<Rightarrow> nat \<Rightarrow> mode \<Rightarrow> nat \<Rightarrow> nat \<Rightarrow> TileData list \<Rightarrow> json" where
  "jsonOutput env tileSize mode width' height' resultTiles =
     JObject
       [(''info'', JObject
           [(''tool'', JString ''TileSlicer Pro''),
            (''version'', JString ''1.0.0''),
            (''generatedAt'', JString (now env))]),
        (''config'', JObject
           [(''tileSize'', JNumber tileSize),
            (''mode'', JString (modeName mode)),
            (''width'', JNumber width'),
            (''height'', JNumber height')]),
        (''tiles'', JArray (map (\<lambda>t. JObject
           [(''id'', JNumber (tile_id t)),
            (''collision'', JBool (isSolid t))]) resultTiles))]"

section \<open>processImage\<close>

text \<open>
  One cell of the scan in Original mode (the body of the two nested loops): the scratch
  canvas is cleared, the cell is drawn onto it, its collision flag is read, and its tile
  is pushed. The state is the scratch canvas and \<^verbatim>\<open>resultTiles\<close>.
\<close>

definition originalCell ::
  "browser \<Rightarrow> bitmap \<Rightarrow> nat \<Rightarrow> nat \<Rightarrow> nat \<Rightarrow> nat \<Rightarrow> bitmap \<times> TileData list
     \<Rightarrow> bitmap \<times> TileData list" where
  "originalCell env sourceImage tileSize cols y x st =
     (let tempCanvas = clearRect (fst st) 0 0 tileSize tileSize;
          tempCanvas = drawImage (blend env) tempCanvas sourceImage
                         (x * tileSize) (y * tileSize) tileSize tileSize 0 0;
          isSolid' = detectCollision (getContext tempCanvas) tileSize;
          id' = y * cols + x
      in (tempCanvas,
          snd st @ [\<lparr>tile_id = id', tile_x = Finite (x * tileSize),
                     tile_y = Finite (y * tileSize), isSolid = isSolid'\<rparr>]))"

definition originalScan ::
  "browser \<Rightarrow> bitmap \<Rightarrow> nat \<Rightarrow> nat \<Rightarrow> nat \<Rightarrow> bitmap \<times> TileData list
     \<Rightarrow> bitmap \<times> TileData list" where
  "originalScan env sourceImage tileSize cols rows st =
     fold (\<lambda>y st. fold (\<lambda>x st. originalCell env sourceImage tileSize cols y x st) [0..<cols] st)
       [0..<rows] st"

text \<open>
  The state of the scan in Optimized mode: the scratch canvas, \<^verbatim>\<open>uniqueTilesMap\<close>
  and \<^verbatim>\<open>uniqueTilesList\<close> (canvas and hash of each retained tile, in the order of the
  pushes).
\<close>

record scan =
  tempCanvas :: bitmap
  uniqueTilesMap :: tileMap
  uniqueTilesList :: "(bitmap \<times> string) list"

definition optimizedCell :: "browser \<Rightarrow> bitmap \<Rightarrow> nat \<Rightarrow> nat \<Rightarrow> nat \<Rightarrow> scan \<Rightarrow> scan" where
  "optimizedCell env sourceImage tileSize y x st =
     (let temp = clearRect (tempCanvas st) 0 0 tileSize tileSize;
          temp = drawImage (blend env) temp sourceImage
                   (x * tileSize) (y * tileSize) tileSize tileSize 0 0;
          tileHash = toDataURL env temp
      in if \<not> Map_has (uniqueTilesMap st) tileHash
         then (let tileCanvas = createCanvas tileSize tileSize;
                   tileCanvas = (if tileContext env (length (uniqueTilesList st))
                                 then drawImageAt (blend env) tileCanvas temp 0 0
                                 else tileCanvas)
               in \<lparr>tempCanvas = temp,
                   uniqueTilesMap = Map_set (mapSlot env) (uniqueTilesMap st) tileHash tileCanvas,
                   uniqueTilesList = uniqueTilesList st @ [(tileCanvas, tileHash)]\<rparr>)
         else st\<lparr>tempCanvas := temp\<rparr>)"

definition optimizedScan :: "browser \<Rightarrow> bitmap \<Rightarrow> nat \<Rightarrow> nat \<Rightarrow> nat \<Rightarrow> scan \<Rightarrow> scan" where
  "optimizedScan env sourceImage tileSize cols rows st =
     fold (\<lambda>y st. fold (\<lambda>x st. optimizedCell env sourceImage tileSize y x st) [0..<cols] st)
       [0..<rows] st"

text \<open>
  The body of \<^verbatim>\<open>uniqueTilesList.forEach((item, index) => ..)\<close>; the state is the result
  canvas and \<^verbatim>\<open>resultTiles\<close>. \<^verbatim>\<open>drawImage\<close> returns without drawing when a coordinate
  is \<^verbatim>\<open>NaN\<close> or infinite. Asking the tile canvas for its context again gives what the
  first call gave.
\<close>

definition placeTile ::
  "browser \<Rightarrow> nat \<Rightarrow> nat \<Rightarrow> nat \<times> (bitmap \<times> string) \<Rightarrow> bitmap \<times> TileData list
     \<Rightarrow> bitmap \<times> TileData list" where
  "placeTile env tileSize outCols entry st =
     (let index = fst entry;
          item = snd entry;
          drawCol = remainder index outCols;
          drawRow = floorQuotient index outCols;
          drawX = multiply drawCol tileSize;
          drawY = multiply drawRow tileSize;
          resultCanvas = (case (drawX, drawY) of
                            (Finite dx, Finite dy) \<Rightarrow>
                              drawImageAt (blend env) (fst st) (fst item) dx dy
                          | _ \<Rightarrow> fst st);
          isSolid' = (if tileContext env index
                      then detectCollision (getContext (fst item)) tileSize else False)
      in (resultCanvas,
          snd st @ [\<lparr>tile_id = index, tile_x = drawX, tile_y = drawY, isSolid = isSolid'\<rparr>]))"

text \<open>
  \<^verbatim>\<open>processImage\<close>. The grid is \<^verbatim>\<open>Math.floor(width / tileSize)\<close> by
  \<^verbatim>\<open>Math.floor(height / tileSize)\<close>, the integer quotients for a positive tile size.
  With a tile size of zero the JavaScript computes the grid with \<^verbatim>\<open>Infinity\<close> and
  \<^verbatim>\<open>NaN\<close> (a scan that never ends, or \<^verbatim>\<open>NaN\<close> counts); those runs are outside the
  numbers of this model and the result is \<open>None\<close>. Otherwise the result is
  \<open>Some (Inl e)\<close> when the source throws and \<open>Some (Inr r)\<close> when it returns.
\<close>

definition processImage ::
  "browser \<Rightarrow> bitmap \<Rightarrow> ProcessOptions \<Rightarrow> (error + ProcessResult) option" where
  "processImage env sourceImage options =
     (let tileSize = opt_tileSize options;
          mode = opt_mode options;
          columns = (case opt_columns options of None \<Rightarrow> 8 | Some c \<Rightarrow> c)
      in if tileSize = 0 then None
      else
        (let cols = bwidth sourceImage div tileSize;
             rows = bheight sourceImage div tileSize;
             totalTilesPossible = cols * rows
         in if totalTilesPossible = 0 then Some (Inl InvalidDimensions)
         else if \<not> tempContext env then Some (Inl TempContextUnavailable)
         else if \<not> resultContext env then Some (Inl ResultContextUnavailable)
         else
           (let tempCanvas = createCanvas tileSize tileSize;
                (uniqueCount, resultCanvas, resultTiles) =
                  (case mode of
                     Original \<Rightarrow>
                       (let finalWidth = cols * tileSize;
                            finalHeight = rows * tileSize;
                            resultCanvas = createCanvas finalWidth finalHeight;
                            resultCanvas = clearRect resultCanvas 0 0 finalWidth finalHeight;
                            resultCanvas = drawImage (blend env) resultCanvas sourceImage
                                             0 0 finalWidth finalHeight 0 0;
                            st = originalScan env sourceImage tileSize cols rows (tempCanvas, [])
                        in (totalTilesPossible, resultCanvas, snd st))
                   | Optimized \<Rightarrow>
                       (let st = optimizedScan env sourceImage tileSize cols rows
                                   \<lparr>tempCanvas = tempCanvas, uniqueTilesMap = [],
                                    uniqueTilesList = []\<rparr>;
                            uniqueCount = length (uniqueTilesList st);
                            outCols = columns;
                            outRows = ceilQuotient uniqueCount outCols;
                            resultCanvas = createCanvas (outCols * tileSize)
                                             (toUnsignedLong (multiply outRows tileSize));
                            resultCanvas = clearRect resultCanvas 0 0
                                             (bwidth resultCanvas) (bheight resultCanvas);
                            st' = fold (placeTile env tileSize outCols)
                                    (enumerate 0 (uniqueTilesList st)) (resultCanvas, [])
                        in (uniqueCount, fst st', snd st')))
            in Some (Inr
                 \<lparr>dataUrl = toDataURL env resultCanvas,
                  width = bwidth resultCanvas,
                  height = bheight resultCanvas,
                  totalTiles = totalTilesPossible,
                  uniqueTiles = uniqueCount,
                  tiles = resultTiles,
                  jsonContent =
                    JSON_stringify (jsonOutput env tileSize mode
                      (bwidth resultCanvas) (bheight resultCanvas) resultTiles)\<rparr>))))"

section \<open>Notions used to state the properties\<close>

text \<open>The cells of the grid as (row, column) pairs in row-major order.\<close>

definition gridCells :: "nat \<Rightarrow> nat \<Rightarrow> (nat \<times> nat) list" where
  "gridCells cols rows = concat (map (\<lambda>y. map (\<lambda>x. (y, x)) [0..<cols]) [0..<rows])"

text \<open>
  The pixel \<open>(i, j)\<close> of the cell in row \<open>y\<close> and column \<open>x\<close> of the source, and the
  pixel bytes of the cell.
\<close>

definition cellPixel :: "bitmap \<Rightarrow> nat \<Rightarrow> nat \<times> nat \<Rightarrow> nat \<Rightarrow> nat \<Rightarrow> pixel" where
  "cellPixel sourceImage tileSize c i j =
     pixelAt sourceImage (snd c * tileSize + i) (fst c * tileSize + j)"

definition cellBytes :: "bitmap \<Rightarrow> nat \<Rightarrow> nat \<times> nat \<Rightarrow> byte list" where
  "cellBytes sourceImage tileSize c =
     regionBytes sourceImage (snd c * tileSize) (fst c * tileSize) tileSize tileSize"

text \<open>
  The cell drawn alone on a canvas of tile size (what the scratch canvas holds once the
  cell is drawn), and the bytes read from that canvas.
\<close>

definition cellCanvas :: "bitmap \<Rightarrow> nat \<Rightarrow> nat \<times> nat \<Rightarrow> bitmap" where
  "cellCanvas sourceImage tileSize c =
     \<lparr>bwidth = tileSize, bheight = tileSize,
      pixelAt = (\<lambda>i j. if i < tileSize \<and> j < tileSize
                         then premultiply (cellPixel sourceImage tileSize c i j)
                         else transparent)\<rparr>"

definition renderedBytes :: "bitmap \<Rightarrow> nat \<Rightarrow> nat \<times> nat \<Rightarrow> byte list" where
  "renderedBytes sourceImage tileSize c =
     regionBytes (straight (cellCanvas sourceImage tileSize c)) 0 0 tileSize tileSize"

text \<open>The fingerprint of a cell: the data URL of the canvas on which it is drawn alone.\<close>

definition cellHash :: "browser \<Rightarrow> bitmap \<Rightarrow> nat \<Rightarrow> nat \<times> nat \<Rightarrow> string" where
  "cellHash env sourceImage tileSize c = toDataURL env (cellCanvas sourceImage tileSize c)"

text \<open>The classifier on a readable buffer of the given bytes.\<close>

definition bufferSolid :: "nat \<Rightarrow> byte list \<Rightarrow> bool" where
  "bufferSolid tileSize bytes =
     detectCollision \<lparr>getImageData = (\<lambda>sx sy sw sh. Some bytes)\<rparr> tileSize"

text \<open>
  First occurrences: the first element is kept, every later element with the same key
  is dropped, and so on for what remains.
\<close>

function firstSeen :: "('a \<Rightarrow> 'k) \<Rightarrow> 'a list \<Rightarrow> 'a list" where
  "firstSeen key [] = []"
| "firstSeen key (c # cs) = c # firstSeen key (filter (\<lambda>d. key d \<noteq> key c) cs)"
  by pat_completeness auto
termination
  by (relation "measure (\<lambda>(key, cs). length cs)") (auto simp: le_imp_less_Suc)

text \<open>A canvas of tile size whose pixels outside its area are transparent.\<close>

definition scratchCanvas :: "nat \<Rightarrow> bitmap \<Rightarrow> bool" where
  "scratchCanvas tileSize c =
     (bwidth c = tileSize \<and> bheight c = tileSize
      \<and> (\<forall>i j. (i < tileSize \<and> j < tileSize) \<or> pixelAt c i j = transparent))"

text \<open>A cell of the grid of the source: its row and column are within the grid.\<close>

definition validCell :: "bitmap \<Rightarrow> nat \<Rightarrow> nat \<times> nat \<Rightarrow> bool" where
  "validCell sourceImage tileSize c =
     (fst c < bheight sourceImage div tileSize \<and> snd c < bwidth sourceImage div tileSize)"

text \<open>The tile pushed for a cell in Original mode.\<close>

definition originalTile :: "bitmap \<Rightarrow> nat \<Rightarrow> nat \<Rightarrow> nat \<times> nat \<Rightarrow> TileData" where
  "originalTile sourceImage tileSize cols c =
     \<lparr>tile_id = fst c * cols + snd c, tile_x = Finite (snd c * tileSize),
      tile_y = Finite (fst c * tileSize),
      isSolid = bufferSolid tileSize (cellBytes sourceImage tileSize c)\<rparr>"

text \<open>
  The entry of \<^verbatim>\<open>uniqueTilesList\<close> for the k-th retained cell: a copy of the canvas of
  the cell (a blank canvas when the tile canvas has no context) and the fingerprint of
  the cell.
\<close>

definition retained :: "browser \<Rightarrow> bitmap \<Rightarrow> nat \<Rightarrow> nat \<times> (nat \<times> nat) \<Rightarrow> bitmap \<times> string" where
  "retained env sourceImage tileSize e =
     (if tileContext env (fst e) then cellCanvas sourceImage tileSize (snd e)
      else createCanvas tileSize tileSize,
      cellHash env sourceImage tileSize (snd e))"

text \<open>The tile pushed for the k-th retained cell in Optimized mode.\<close>

definition optimizedTile ::
  "browser \<Rightarrow> bitmap \<Rightarrow> nat \<Rightarrow> nat \<Rightarrow> nat \<times> (nat \<times> nat) \<Rightarrow> TileData" where
  "optimizedTile env sourceImage tileSize outCols e =
     \<lparr>tile_id = fst e,
      tile_x = multiply (remainder (fst e) outCols) tileSize,
      tile_y = multiply (floorQuotient (fst e) outCols) tileSize,
      isSolid = (tileContext env (fst e)
                 \<and> bufferSolid tileSize (cellBytes sourceImage tileSize (snd e)))\<rparr>"

text \<open>The cells retained by the Optimized scan: first occurrences by fingerprint, in scan order.\<close>

definition uniqueCells :: "browser \<Rightarrow> bitmap \<Rightarrow> nat \<Rightarrow> (nat \<times> nat) list" where
  "uniqueCells env sourceImage tileSize =
     firstSeen (cellHash env sourceImage tileSize)
       (gridCells (bwidth sourceImage div tileSize) (bheight sourceImage div tileSize))"

text \<open>The column count in effect: \<^verbatim>\<open>columns = 8\<close> when the option is absent.\<close>

definition effectiveColumns :: "ProcessOptions \<Rightarrow> nat" where
  "effectiveColumns options = (case opt_columns options of None \<Rightarrow> 8 | Some c \<Rightarrow> c)"

text \<open>
  The value of \<^verbatim>\<open>tileHash\<close> for the cell \<open>c\<close> when the scan reaches it with the scratch
  canvas \<open>temp\<close> (lines 136 to 143 of the source).
\<close>

definition tileHashOf :: "browser \<Rightarrow> bitmap \<Rightarrow> nat \<Rightarrow> bitmap \<Rightarrow> nat \<times> nat \<Rightarrow> string" where
  "tileHashOf env sourceImage tileSize temp c =
     toDataURL env
       (drawImage (blend env) (clearRect temp 0 0 tileSize tileSize) sourceImage
          (snd c * tileSize) (fst c * tileSize) tileSize tileSize 0 0)"

text \<open>
  The state in which the Optimized scan starts, and the keys of the fingerprint map in
  its order of iteration when the scan has ended.
\<close>

definition initialScan :: "nat \<Rightarrow> scan" where
  "initialScan tileSize =
     \<lparr>tempCanvas = createCanvas tileSize tileSize, uniqueTilesMap = [], uniqueTilesList = []\<rparr>"

definition mapKeys :: "browser \<Rightarrow> bitmap \<Rightarrow> nat \<Rightarrow> string list" where
  "mapKeys env sourceImage tileSize =
     map fst (uniqueTilesMap (optimizedScan env sourceImage tileSize
        (bwidth sourceImage div tileSize) (bheight sourceImage div tileSize)
        (initialScan tileSize)))"

section \<open>The output images\<close>

text \<open>
  The canvas that holds the source cropped to whole tiles: the output image of Original
  mode.
\<close>

definition croppedSource :: "bitmap \<Rightarrow> nat \<Rightarrow> bitmap" where
  "croppedSource sourceImage tileSize =
     \<lparr>bwidth = (bwidth sourceImage div tileSize) * tileSize,
      bheight = (bheight sourceImage div tileSize) * tileSize,
      pixelAt = (\<lambda>i j. if i < (bwidth sourceImage div tileSize) * tileSize
                            \<and> j < (bheight sourceImage div tileSize) * tileSize
                         then premultiply (pixelAt sourceImage i j) else transparent)\<rparr>"

text \<open>
  The atlas of Optimized mode, for a positive column count, when the first \<open>m\<close>
  retained cells are drawn: the pixel \<open>(i, j)\<close> lies in the slot
  \<open>k = (j div tileSize) * outCols + i div tileSize\<close>; it shows the pixel
  \<open>(i mod tileSize, j mod tileSize)\<close> of the canvas of the k-th retained cell when
  \<open>k < m\<close> (and that tile's canvas had a context), and is transparent otherwise.
\<close>

definition atlasUpTo ::
  "browser \<Rightarrow> bitmap \<Rightarrow> nat \<Rightarrow> nat \<Rightarrow> (nat \<times> nat) list \<Rightarrow> nat \<Rightarrow> bitmap" where
  "atlasUpTo env sourceImage tileSize outCols cells m =
     \<lparr>bwidth = outCols * tileSize,
      bheight = nat \<lceil>real (length cells) / real outCols\<rceil> * tileSize,
      pixelAt = (\<lambda>i j.
        let k = (j div tileSize) * outCols + i div tileSize
        in if i < outCols * tileSize
              \<and> j < nat \<lceil>real (length cells) / real outCols\<rceil> * tileSize
              \<and> k < m \<and> k < length cells \<and> tileContext env k
           then premultiply (cellPixel sourceImage tileSize (cells ! k)
                               (i mod tileSize) (j mod tileSize))
           else transparent)\<rparr>"

definition atlas :: "browser \<Rightarrow> bitmap \<Rightarrow> nat \<Rightarrow> nat \<Rightarrow> bitmap" where
  "atlas env sourceImage tileSize outCols =
     atlasUpTo env sourceImage tileSize outCols (uniqueCells env sourceImage tileSize)
       (length (uniqueCells env sourceImage tileSize))"

section \<open>Concrete inputs\<close>

text \<open>Two-by-two canvases, fully opaque and fully transparent.\<close>

definition opaque2 :: bitmap where
  "opaque2 = \<lparr>bwidth = 2, bheight = 2, pixelAt = (\<lambda>i j. (10, 20, 30, 255))\<rparr>"

definition clear2 :: bitmap where
  "clear2 = \<lparr>bwidth = 2, bheight = 2, pixelAt = (\<lambda>i j. (0, 0, 0, 0))\<rparr>"

text \<open>A context whose \<^verbatim>\<open>getImageData\<close> throws.\<close>

definition unreadable :: ctx2d where
  "unreadable = \<lparr>getImageData = (\<lambda>sx sy sw sh. None)\<rparr>"

text \<open>
  A browser for the examples: the encoder writes one character per byte, every context
  is available, and the map iterates in the order of insertion.
\<close>

definition byteChar :: "byte \<Rightarrow> char" where
  "byteChar b = char_of (unat b)"

definition demoBrowser :: browser where
  "demoBrowser =
     \<lparr>encodePNG = (\<lambda>w h bytes. map byteChar bytes),
      blend = (\<lambda>s d. s),
      tempContext = True,
      resultContext = True,
      tileContext = (\<lambda>k. True),
      mapSlot = (\<lambda>keys k. length keys),
      now = ''2024-05-01T12:00:00.000Z''\<rparr>"

text \<open>A 96 by 96 source, opaque in its left half; Scenario A runs on it.\<close>

definition source96 :: bitmap where
  "source96 = \<lparr>bwidth = 96, bheight = 96,
                pixelAt = (\<lambda>i j. (0, 0, 0, if i < 48 then 255 else 0))\<rparr>"

definition scenarioA :: ProcessOptions where
  "scenarioA = \<lparr>opt_tileSize = 48, opt_mode = Original, opt_columns = Some 8\<rparr>"

text \<open>
  The same browser when the scratch canvas yields no 2D context, and when the result
  canvas yields none.
\<close>

definition noContextBrowser :: browser where
  "noContextBrowser = demoBrowser\<lparr>tempContext := False\<rparr>"

definition noResultContextBrowser :: browser where
  "noResultContextBrowser = demoBrowser\<lparr>resultContext := False\<rparr>"

text \<open>A 40 by 40 source, smaller than one tile of 48 (Scenario C).\<close>

definition source40 :: bitmap where
  "source40 = \<lparr>bwidth = 40, bheight = 40, pixelAt = (\<lambda>i j. (0, 0, 0, 255))\<rparr>"

text \<open>
  A 96 by 48 source whose two halves are pixel-identical (Scenario B), and the options
  of Scenarios B and E.
\<close>

definition twin96 :: bitmap where
  "twin96 = \<lparr>bwidth = 96, bheight = 48,
              pixelAt = (\<lambda>i j. (of_nat (i mod 48), of_nat j, 0, 255))\<rparr>"

definition optimized48 :: ProcessOptions where
  "optimized48 = \<lparr>opt_tileSize = 48, opt_mode = Optimized, opt_columns = Some 8\<rparr>"

text \<open>The same options with a column count of zero.\<close>

definition zeroColumns48 :: ProcessOptions where
  "zeroColumns48 = \<lparr>opt_tileSize = 48, opt_mode = Optimized, opt_columns = Some 0\<rparr>"

text \<open>A 480 by 48 source of ten mutually distinct opaque tiles (Scenario E).\<close>

definition strip480 :: bitmap where
  "strip480 = \<lparr>bwidth = 480, bheight = 48,
                pixelAt = (\<lambda>i j. (of_nat (i div 48), 0, 0, 255))\<rparr>"

text \<open>
  A 480 by 48 source of ten tiles that differ in one byte each: every tile is opaque
  but for its top left pixel, which is fully transparent and whose red byte is the
  number of the tile.
\<close>

definition hidden480 :: bitmap where
  "hidden480 = \<lparr>bwidth = 480, bheight = 48,
                 pixelAt = (\<lambda>i j. if i mod 48 = 0 \<and> j = 0 then (of_nat (i div 48), 0, 0, 0)
                                   else (200, 100, 50, 255))\<rparr>"

text \<open>
  A 192 by 48 source of four opaque tiles, the third equal to the first: their red
  bytes are 10, 20, 10 and 30.
\<close>

definition motif192 :: bitmap where
  "motif192 = \<lparr>bwidth = 192, bheight = 48,
                pixelAt = (\<lambda>i j. (if i div 48 = 1 then 20 else if i div 48 = 3 then 30 else 10,
                                   0, 0, 255))\<rparr>"

text \<open>
  The same browser at a later time, with a map that puts a new key first in its order
  of iteration.
\<close>

definition laterBrowser :: browser where
  "laterBrowser = demoBrowser\<lparr>mapSlot := (\<lambda>keys k. 0), now := ''2024-05-02T08:30:00.000Z''\<rparr>"

section \<open>Lemmas: the classifier loop\<close>

lemma countSolid_prefix:
  "countSolid (pre @ concat (map pixelBytes pxs)) (length pre + 3) n
     = n + length (filter (\<lambda>p. alpha p > 10) pxs)"
proof (induction pxs arbitrary: pre n)
  case Nil
  show ?case by (simp add: countSolid.simps)
next
  case (Cons p ps)
  obtain r g b a where p: "p = (r, g, b, a)" by (cases p) auto
  let ?pre = "pre @ [r, g, b, a]"
  have idx: "(pre @ concat (map pixelBytes (p # ps))) ! (length pre + 3) = a"
    by (simp add: p nth_append)
  have "countSolid (pre @ concat (map pixelBytes (p # ps))) (length pre + 3) n
      = countSolid (?pre @ concat (map pixelBytes ps)) (length ?pre + 3)
          (if a > 10 then n + 1 else n)"
    using idx by (subst countSolid.simps) (simp add: p add.commute)
  also have "\<dots> = (if a > 10 then n + 1 else n) + length (filter (\<lambda>p. alpha p > 10) ps)"
    by (rule Cons.IH)
  finally show ?case by (simp add: p)
qed

lemma countSolid_pixels:
  "countSolid (concat (map pixelBytes pxs)) 3 0 = length (filter (\<lambda>p. alpha p > 10) pxs)"
  using countSolid_prefix [of "[]" pxs 0] by simp

section \<open>Lemmas: premultiplied samples\<close>

lemma alpha_transparent: "alpha transparent = 0"
  by (simp add: transparent_def)

lemma premultiply_alpha: "alpha (premultiply p) = alpha p"
  by (cases p) simp

lemma unpremultiply_alpha: "alpha (unpremultiply p) = alpha p"
  by (cases p) (simp add: transparent_def)

lemma premultiply_clear: "alpha p = 0 \<Longrightarrow> premultiply p = transparent"
  by (cases p) (simp add: scaleByAlpha_def transparent_def)

lemma unpremultiply_transparent: "unpremultiply transparent = transparent"
  by (simp add: transparent_def)

lemma scaleByAlpha_opaque: "scaleByAlpha c 255 = c"
proof -
  have "(unat c * 255 + 127) div 255 = unat c" by simp
  then show ?thesis by (simp add: scaleByAlpha_def)
qed

lemma unscaleByAlpha_opaque: "unscaleByAlpha c 255 = c"
proof -
  have "(unat c * 255 + 127) div 255 = unat c" by simp
  moreover have "unat c < 256" using unsigned_less [of c] by simp
  ultimately show ?thesis by (simp add: unscaleByAlpha_def min_absorb2)
qed

lemma opaque_exact: "alpha p = 255 \<Longrightarrow> unpremultiply (premultiply p) = p"
  by (cases p) (simp add: scaleByAlpha_opaque unscaleByAlpha_opaque)

lemma sourceOver_transparent: "sourceOver bl s transparent = s"
  by (simp add: sourceOver_def)

section \<open>Lemmas: the pixels and bytes of a region\<close>

lemma regionPixels_straight:
  "regionPixels (straight c) sx sy sw sh = map unpremultiply (regionPixels c sx sy sw sh)"
proof -
  have px: "unpremultiply (if P then pixelAt c a b else transparent)
              = (if P then pixelAt (straight c) a b else transparent)" for P a b
    by (simp add: straight_def unpremultiply_transparent)
  have sz: "bwidth (straight c) = bwidth c" "bheight (straight c) = bheight c"
    by (simp_all add: straight_def)
  show ?thesis
    by (simp add: regionPixels_def map_concat comp_def px sz)
qed

lemma pixelBytes_inj:
  "concat (map pixelBytes xs) = concat (map pixelBytes ys) \<Longrightarrow> xs = ys"
proof (induction xs arbitrary: ys)
  case Nil
  then show ?case by (cases ys) (auto elim: pixelBytes.elims)
next
  case (Cons p ps)
  obtain r g b a where p: "p = (r, g, b, a)" by (cases p) auto
  show ?case
  proof (cases ys)
    case Nil
    with Cons.prems show ?thesis by (simp add: p)
  next
    case (Cons q qs)
    obtain r' g' b' a' where q: "q = (r', g', b', a')" by (cases q) auto
    from Cons.prems have "p = q" and "concat (map pixelBytes ps) = concat (map pixelBytes qs)"
      by (simp_all add: Cons p q)
    with Cons.IH [of qs] show ?thesis by (simp add: Cons)
  qed
qed

lemma solid_by_alpha:
  assumes "map alpha pxs = map alpha pxs'"
  shows "bufferSolid ts (concat (map pixelBytes pxs)) = bufferSolid ts (concat (map pixelBytes pxs'))"
proof -
  have f: "length (filter (\<lambda>p. alpha p > 10) q) = length (filter (\<lambda>a. a > 10) (map alpha q))"
    for q :: "pixel list"
    by (simp add: filter_map comp_def)
  have "length (filter (\<lambda>p. alpha p > 10) pxs) = length (filter (\<lambda>a. a > 10) (map alpha pxs))"
    by (rule f)
  also have "\<dots> = length (filter (\<lambda>a. a > 10) (map alpha pxs'))"
    by (simp only: assms)
  also have "\<dots> = length (filter (\<lambda>p. alpha p > 10) pxs')"
    by (rule f [symmetric])
  finally show ?thesis
    by (simp add: bufferSolid_def detectCollision_def countSolid_pixels)
qed

lemma detect_canvas:
  "0 < ts \<Longrightarrow> detectCollision (getContext c) ts
                 = bufferSolid ts (regionBytes (straight c) 0 0 ts ts)"
  by (simp add: detectCollision_def getContext_def bufferSolid_def)

section \<open>Lemmas: the scratch canvas holds the cell\<close>

lemma cell_in_bounds:
  assumes "x < w div ts" and "i < ts"
  shows "x * ts + i < (w::nat)"
proof -
  have "x * ts + i < (x + 1) * ts" using assms(2) by simp
  also have "\<dots> \<le> (w div ts) * ts" using assms(1) by (intro mult_le_mono1) simp
  also have "\<dots> \<le> w" by simp
  finally show ?thesis .
qed

lemma validCell_positive: "validCell src ts c \<Longrightarrow> 0 < ts"
  by (cases "ts = 0") (simp_all add: validCell_def)

lemma scratchCanvas_create: "scratchCanvas ts (createCanvas ts ts)"
  by (simp add: scratchCanvas_def createCanvas_def)

lemma scratchCanvas_cell: "scratchCanvas ts (cellCanvas src ts c)"
  by (simp add: scratchCanvas_def cellCanvas_def)

lemma scratch_holds_cell:
  assumes "scratchCanvas ts c" and "validCell src ts (y, x)"
  shows "drawImage bl (clearRect c 0 0 ts ts) src (x * ts) (y * ts) ts ts 0 0
           = cellCanvas src ts (y, x)"
proof -
  have w: "bwidth c = ts" and h: "bheight c = ts"
    and out: "\<And>i j. \<not> (i < ts \<and> j < ts) \<Longrightarrow> pixelAt c i j = transparent"
    using assms(1) by (auto simp: scratchCanvas_def)
  have inx: "\<And>i. i < ts \<Longrightarrow> x * ts + i < bwidth src"
    and iny: "\<And>j. j < ts \<Longrightarrow> y * ts + j < bheight src"
    using assms(2) by (auto simp: validCell_def intro: cell_in_bounds)
  have "pixelAt (drawImage bl (clearRect c 0 0 ts ts) src (x * ts) (y * ts) ts ts 0 0) i j
          = pixelAt (cellCanvas src ts (y, x)) i j" for i j
    using inx [of i] iny [of j] out [of i j]
    by (auto simp: drawImage_def drawSamples_def premultiplied_def clearRect_def cellCanvas_def
          cellPixel_def w h sourceOver_transparent)
  then show ?thesis
    by (intro bitmap.equality ext)
       (simp_all add: drawImage_def drawSamples_def clearRect_def cellCanvas_def w h)
qed

lemma tile_copy:
  "drawImageAt bl (createCanvas ts ts) (cellCanvas src ts c) 0 0 = cellCanvas src ts c"
  by (intro bitmap.equality ext)
     (auto simp: drawImageAt_def drawSamples_def createCanvas_def cellCanvas_def
        sourceOver_transparent)

lemma cellBytes_pixels:
  "cellBytes src ts c = concat (map pixelBytes (regionPixels src (snd c * ts) (fst c * ts) ts ts))"
  by (simp add: cellBytes_def regionBytes_def)

lemma cellCanvas_pixels:
  assumes "validCell src ts c"
  shows "regionPixels (cellCanvas src ts c) 0 0 ts ts
           = map premultiply (regionPixels src (snd c * ts) (fst c * ts) ts ts)"
proof -
  have inx: "\<And>i. i < ts \<Longrightarrow> snd c * ts + i < bwidth src"
    and iny: "\<And>j. j < ts \<Longrightarrow> fst c * ts + j < bheight src"
    using assms by (auto simp: validCell_def intro: cell_in_bounds)
  show ?thesis
    unfolding regionPixels_def map_concat map_map
    by (intro arg_cong [where f = concat] map_cong refl)
       (simp add: cellCanvas_def cellPixel_def inx iny)
qed

lemma rendered_pixels:
  assumes "validCell src ts c"
  shows "renderedBytes src ts c
           = concat (map pixelBytes (map (\<lambda>p. unpremultiply (premultiply p))
               (regionPixels src (snd c * ts) (fst c * ts) ts ts)))"
  by (simp add: renderedBytes_def regionBytes_def regionPixels_straight
        cellCanvas_pixels [OF assms] comp_def)

lemma rendered_solid:
  assumes "validCell src ts c"
  shows "bufferSolid ts (renderedBytes src ts c) = bufferSolid ts (cellBytes src ts c)"
  unfolding rendered_pixels [OF assms] cellBytes_pixels
  by (rule solid_by_alpha) (simp add: comp_def unpremultiply_alpha premultiply_alpha)

lemma same_bytes_rendered:
  assumes "validCell src1 ts c1" and "validCell src2 ts c2"
    and "cellBytes src1 ts c1 = cellBytes src2 ts c2"
  shows "renderedBytes src1 ts c1 = renderedBytes src2 ts c2"
proof -
  from assms(3) have "regionPixels src1 (snd c1 * ts) (fst c1 * ts) ts ts
                        = regionPixels src2 (snd c2 * ts) (fst c2 * ts) ts ts"
    unfolding cellBytes_pixels by (rule pixelBytes_inj)
  then show ?thesis
    by (simp only: rendered_pixels [OF assms(1)] rendered_pixels [OF assms(2)])
qed

lemma cellHash_rendered:
  "0 < ts \<Longrightarrow> cellHash env src ts c = encodePNG env ts ts (renderedBytes src ts c)"
  by (simp add: cellHash_def toDataURL_def renderedBytes_def cellCanvas_def)

lemma same_bytes_hash:
  assumes "validCell src1 ts c1" and "validCell src2 ts c2"
    and "cellBytes src1 ts c1 = cellBytes src2 ts c2"
  shows "cellHash env src1 ts c1 = cellHash env src2 ts c2"
  using same_bytes_rendered [OF assms] validCell_positive [OF assms(1)]
  by (simp add: cellHash_rendered)

lemma hidden_colour_canvas:
  assumes "\<forall>i<ts. \<forall>j<ts. cellPixel src1 ts c1 i j = cellPixel src2 ts c2 i j
             \<or> (alpha (cellPixel src1 ts c1 i j) = 0 \<and> alpha (cellPixel src2 ts c2 i j) = 0)"
  shows "cellCanvas src1 ts c1 = cellCanvas src2 ts c2"
proof -
  have "premultiply (cellPixel src1 ts c1 i j) = premultiply (cellPixel src2 ts c2 i j)"
    if "i < ts" and "j < ts" for i j
    using assms that by (metis premultiply_clear)
  then show ?thesis
    by (intro bitmap.equality ext) (auto simp: cellCanvas_def)
qed

lemma detect_cell:
  assumes "validCell src ts c"
  shows "detectCollision (getContext (cellCanvas src ts c)) ts
           = bufferSolid ts (cellBytes src ts c)"
  using detect_canvas [OF validCell_positive [OF assms], of "cellCanvas src ts c"]
    rendered_solid [OF assms]
  by (simp add: renderedBytes_def)

section \<open>Lemmas: the grid in row-major order\<close>

lemma fold_nested:
  "fold (\<lambda>y st. fold (\<lambda>x st. f y x st) xs st) ys st
     = fold (\<lambda>c. f (fst c) (snd c)) (concat (map (\<lambda>y. map (\<lambda>x. (y, x)) xs) ys)) st"
proof (induction ys arbitrary: st)
  case Nil
  show ?case by simp
next
  case (Cons y ys)
  have "fold (\<lambda>c. f (fst c) (snd c)) (map (\<lambda>x. (y, x)) xs) st = fold (\<lambda>x st. f y x st) xs st"
    by (simp add: fold_map comp_def)
  then show ?case using Cons.IH by simp
qed

lemma gridCells_Suc:
  "gridCells cols (Suc rows) = gridCells cols rows @ map (\<lambda>x. (rows, x)) [0..<cols]"
  by (simp add: gridCells_def)

lemma set_gridCells: "c \<in> set (gridCells cols rows) \<longleftrightarrow> fst c < rows \<and> snd c < cols"
  by (cases c) (force simp: gridCells_def)

lemma length_gridCells: "length (gridCells cols rows) = rows * cols"
  by (induction rows) (simp_all add: gridCells_Suc gridCells_def)

lemma row_of_indices:
  "map (\<lambda>k. (k div cols, k mod cols)) [r * cols..<r * cols + cols] = map (\<lambda>x. (r, x)) [0..<cols]"
proof -
  have "[r * cols..<r * cols + cols] = map (\<lambda>i. i + r * cols) [0..<cols]"
    by (simp add: map_add_upt add.commute)
  then have "map (\<lambda>k. (k div cols, k mod cols)) [r * cols..<r * cols + cols]
          = map (\<lambda>i. ((i + r * cols) div cols, (i + r * cols) mod cols)) [0..<cols]"
    by (simp add: comp_def)
  also have "\<dots> = map (\<lambda>x. (r, x)) [0..<cols]"
    by (rule map_cong) auto
  finally show ?thesis .
qed

lemma gridCells_index:
  "gridCells cols rows = map (\<lambda>k. (k div cols, k mod cols)) [0..<rows * cols]"
proof (induction rows)
  case 0
  show ?case by (simp add: gridCells_def)
next
  case (Suc rows)
  have "Suc rows * cols = rows * cols + cols" by simp
  then have "[0..<Suc rows * cols] = [0..<rows * cols] @ [rows * cols..<rows * cols + cols]"
    using upt_add_eq_append [of 0 "rows * cols" cols] by (simp only: le0)
  then show ?case
    using Suc.IH row_of_indices [of cols rows] by (simp add: gridCells_Suc)
qed

lemma gridCells_nth:
  assumes "row < rows" and "col < cols"
  shows "gridCells cols rows ! (row * cols + col) = (row, col)"
proof -
  have "row * cols + col < (row + 1) * cols" using assms(2) by simp
  also have "\<dots> \<le> rows * cols" using assms(1) by (intro mult_le_mono1) simp
  finally have "row * cols + col < rows * cols" .
  then show ?thesis using assms(2) by (simp add: gridCells_index)
qed

lemma gridCells_ids:
  "map (\<lambda>c. fst c * cols + snd c) (gridCells cols rows) = [0..<rows * cols]"
proof -
  have "map (\<lambda>c. fst c * cols + snd c) (gridCells cols rows)
          = map (\<lambda>k. k div cols * cols + k mod cols) [0..<rows * cols]"
    by (simp add: gridCells_index comp_def)
  also have "\<dots> = map (\<lambda>k. k) [0..<rows * cols]" by simp
  finally show ?thesis by simp
qed

section \<open>Lemmas: the scan of Original mode\<close>

lemma originalCell_valid:
  assumes "scratchCanvas ts (fst st)" and "validCell src ts (y, x)"
  shows "originalCell env src ts cols y x st
           = (cellCanvas src ts (y, x), snd st @ [originalTile src ts cols (y, x)])"
  using assms
  by (simp add: originalCell_def Let_def scratch_holds_cell detect_cell originalTile_def)

lemma original_fold:
  assumes "\<forall>c\<in>set cs. validCell src ts c" and "scratchCanvas ts (fst st)"
  shows "scratchCanvas ts (fst (fold (\<lambda>c. originalCell env src ts cols (fst c) (snd c)) cs st))
       \<and> snd (fold (\<lambda>c. originalCell env src ts cols (fst c) (snd c)) cs st)
           = snd st @ map (originalTile src ts cols) cs"
  using assms
proof (induction cs arbitrary: st)
  case Nil
  then show ?case by simp
next
  case (Cons c cs)
  obtain y x where c: "c = (y, x)" by (cases c) auto
  have step: "originalCell env src ts cols (fst c) (snd c) st
           = (cellCanvas src ts c, snd st @ [originalTile src ts cols c])"
    using Cons.prems by (simp add: c originalCell_valid)
  have "scratchCanvas ts (fst (cellCanvas src ts c, snd st @ [originalTile src ts cols c]))"
    by (simp add: scratchCanvas_cell)
  from Cons.IH [OF _ this] Cons.prems(1) show ?case
    by (simp add: step)
qed

lemma originalScan_tiles:
  "snd (originalScan env src ts (bwidth src div ts) (bheight src div ts)
          (createCanvas ts ts, []))
     = map (originalTile src ts (bwidth src div ts))
         (gridCells (bwidth src div ts) (bheight src div ts))"
proof -
  have valid: "\<forall>c\<in>set (gridCells (bwidth src div ts) (bheight src div ts)). validCell src ts c"
    by (simp add: set_gridCells validCell_def)
  have "scratchCanvas ts (fst (createCanvas ts ts, []::TileData list))"
    by (simp add: scratchCanvas_create)
  from original_fold [OF valid this] show ?thesis
    by (simp add: originalScan_def fold_nested gridCells_def)
qed

section \<open>Lemmas: the fingerprint map\<close>

lemma Map_has_keys: "Map_has m k \<longleftrightarrow> k \<in> fst ` set m"
  by (simp add: Map_has_def)

lemma Map_set_keys:
  "\<not> Map_has m k \<Longrightarrow> map fst (Map_set slot m k v)
     = take (slot (map fst m) k) (map fst m) @ [k] @ drop (slot (map fst m) k) (map fst m)"
  by (simp add: Map_set_def take_map drop_map)

lemma set_take_drop: "set (take n xs) \<union> set (drop n xs) = set xs"
  by (metis append_take_drop_id set_append)

lemma Map_set_key_set:
  assumes "\<not> Map_has m k"
  shows "fst ` set (Map_set slot m k v) = insert k (fst ` set m)"
proof -
  have "set (map fst (Map_set slot m k v))
          = insert k (set (take (slot (map fst m) k) (map fst m))
                      \<union> set (drop (slot (map fst m) k) (map fst m)))"
    by (simp add: Map_set_keys [OF assms])
  then show ?thesis by (simp add: set_take_drop)
qed

section \<open>Lemmas: the scan of Optimized mode\<close>

lemma optimizedCell_valid:
  assumes "scratchCanvas ts (tempCanvas st)" and "validCell src ts c"
  shows "optimizedCell env src ts (fst c) (snd c) st
           = (if \<not> Map_has (uniqueTilesMap st) (cellHash env src ts c)
              then \<lparr>tempCanvas = cellCanvas src ts c,
                    uniqueTilesMap = Map_set (mapSlot env) (uniqueTilesMap st)
                      (cellHash env src ts c)
                      (fst (retained env src ts (length (uniqueTilesList st), c))),
                    uniqueTilesList = uniqueTilesList st
                      @ [retained env src ts (length (uniqueTilesList st), c)]\<rparr>
              else st\<lparr>tempCanvas := cellCanvas src ts c\<rparr>)"
proof -
  obtain y x where c: "c = (y, x)" by (cases c) auto
  show ?thesis
    using assms
    by (simp add: c optimizedCell_def Let_def scratch_holds_cell cellHash_def tile_copy
          retained_def)
qed

lemma firstSeen_filter_insert:
  "filter (\<lambda>d. key d \<noteq> k \<and> key d \<notin> D) cs
     = filter (\<lambda>d. key d \<noteq> k) (filter (\<lambda>d. key d \<notin> D) cs)"
  by (induction cs) auto

lemma optimized_fold:
  assumes "\<forall>c\<in>set cs. validCell src ts c"
    and "scratchCanvas ts (tempCanvas st)"
    and "fst ` set (uniqueTilesMap st) = snd ` set (uniqueTilesList st)"
  shows "uniqueTilesList (fold (\<lambda>c. optimizedCell env src ts (fst c) (snd c)) cs st)
           = uniqueTilesList st
             @ map (retained env src ts)
                 (enumerate (length (uniqueTilesList st))
                    (firstSeen (cellHash env src ts)
                       (filter (\<lambda>c. cellHash env src ts c \<notin> fst ` set (uniqueTilesMap st)) cs)))"
  using assms
proof (induction cs arbitrary: st)
  case Nil
  then show ?case by simp
next
  case (Cons c cs)
  let ?h = "cellHash env src ts c"
  let ?st = "optimizedCell env src ts (fst c) (snd c) st"
  have valid: "validCell src ts c" and rest: "\<forall>c\<in>set cs. validCell src ts c"
    using Cons.prems(1) by auto
  note step = optimizedCell_valid [OF Cons.prems(2) valid, of env]
  show ?case
  proof (cases "Map_has (uniqueTilesMap st) ?h")
    case False
    have st': "?st = \<lparr>tempCanvas = cellCanvas src ts c,
                    uniqueTilesMap = Map_set (mapSlot env) (uniqueTilesMap st) ?h
                      (fst (retained env src ts (length (uniqueTilesList st), c))),
                    uniqueTilesList = uniqueTilesList st
                      @ [retained env src ts (length (uniqueTilesList st), c)]\<rparr>"
      using step False by simp
    have notin: "?h \<notin> fst ` set (uniqueTilesMap st)" using False by (simp add: Map_has_keys)
    have 1: "scratchCanvas ts (tempCanvas ?st)" by (simp add: st' scratchCanvas_cell)
    have keys': "fst ` set (uniqueTilesMap ?st) = insert ?h (fst ` set (uniqueTilesMap st))"
      by (simp add: st' Map_set_key_set [OF False])
    have 2: "fst ` set (uniqueTilesMap ?st) = snd ` set (uniqueTilesList ?st)"
      unfolding keys' using Cons.prems(3) by (simp add: st' retained_def)
    have "uniqueTilesList (fold (\<lambda>c. optimizedCell env src ts (fst c) (snd c)) cs ?st)
           = uniqueTilesList ?st
             @ map (retained env src ts)
                 (enumerate (length (uniqueTilesList ?st))
                    (firstSeen (cellHash env src ts)
                       (filter (\<lambda>c. cellHash env src ts c \<notin> fst ` set (uniqueTilesMap ?st)) cs)))"
      by (rule Cons.IH [OF rest 1 2])
    then show ?thesis
      unfolding keys' using notin
      by (simp add: firstSeen_filter_insert st' del: filter_filter)
  next
    case True
    have st': "?st = st\<lparr>tempCanvas := cellCanvas src ts c\<rparr>"
      using step True by simp
    have isin: "?h \<in> fst ` set (uniqueTilesMap st)" using True by (simp add: Map_has_keys)
    have 1: "scratchCanvas ts (tempCanvas ?st)" by (simp add: st' scratchCanvas_cell)
    have 2: "fst ` set (uniqueTilesMap ?st) = snd ` set (uniqueTilesList ?st)"
      using Cons.prems(3) by (simp add: st')
    from Cons.IH [OF rest 1 2] show ?thesis
      using isin by (simp add: st')
  qed
qed

lemma optimizedScan_list:
  "uniqueTilesList (optimizedScan env src ts (bwidth src div ts) (bheight src div ts)
      \<lparr>tempCanvas = createCanvas ts ts, uniqueTilesMap = [], uniqueTilesList = []\<rparr>)
     = map (retained env src ts) (enumerate 0 (uniqueCells env src ts))"
proof -
  let ?st = "\<lparr>tempCanvas = createCanvas ts ts, uniqueTilesMap = [], uniqueTilesList = []\<rparr>"
  have valid: "\<forall>c\<in>set (gridCells (bwidth src div ts) (bheight src div ts)). validCell src ts c"
    by (simp add: set_gridCells validCell_def)
  have 1: "scratchCanvas ts (tempCanvas ?st)" by (simp add: scratchCanvas_create)
  have 2: "fst ` set (uniqueTilesMap ?st) = snd ` set (uniqueTilesList ?st)" by simp
  from optimized_fold [OF valid 1 2, of env] show ?thesis
    by (simp add: optimizedScan_def fold_nested gridCells_def uniqueCells_def)
qed

section \<open>Lemmas: the layout arithmetic\<close>

lemma layout_positive:
  assumes "0 < n"
  shows "multiply (remainder i n) ts = Finite ((i mod n) * ts)"
    and "multiply (floorQuotient i n) ts = Finite ((i div n) * ts)"
    and "toUnsignedLong (multiply (ceilQuotient i n) ts) = nat \<lceil>real i / real n\<rceil> * ts"
  using assms
  by (simp_all add: multiply_def remainder_def floorQuotient_def ceilQuotient_def
        toUnsignedLong_def)

lemma layout_zero:
  "multiply (remainder i 0) ts = NaN"
  "multiply (floorQuotient i 0) ts \<noteq> Finite a"
  "toUnsignedLong (multiply (ceilQuotient i 0) ts) = 0"
  by (simp_all add: multiply_def remainder_def floorQuotient_def ceilQuotient_def
        toUnsignedLong_def)

section \<open>Lemmas: placing the retained tiles\<close>

lemma set_firstSeen: "set (firstSeen key cs) \<subseteq> set cs"
  by (induction key cs rule: firstSeen.induct) auto

lemma uniqueCells_valid: "c \<in> set (uniqueCells env src ts) \<Longrightarrow> validCell src ts c"
  using set_firstSeen [of "cellHash env src ts"
      "gridCells (bwidth src div ts) (bheight src div ts)"]
  by (auto simp: uniqueCells_def set_gridCells validCell_def)

lemma drawImageAt_size:
  "bwidth (drawImageAt bl dst s dx dy) = bwidth dst"
  "bheight (drawImageAt bl dst s dx dy) = bheight dst"
  by (simp_all add: drawImageAt_def drawSamples_def)

lemma retained_solid:
  assumes "validCell src ts c"
  shows "(if tileContext env k
          then detectCollision (getContext (fst (retained env src ts (k, c)))) ts else False)
         = (tileContext env k \<and> bufferSolid ts (cellBytes src ts c))"
  by (simp add: retained_def detect_cell [OF assms])

lemma placeTile_retained:
  assumes "validCell src ts c"
  shows "placeTile env ts oc (k, retained env src ts (k, c)) st
           = (if 0 < oc
              then drawImageAt (blend env) (fst st) (fst (retained env src ts (k, c)))
                     ((k mod oc) * ts) ((k div oc) * ts)
              else fst st,
              snd st @ [optimizedTile env src ts oc (k, c)])"
proof (cases "0 < oc")
  case True
  then show ?thesis
    by (simp add: placeTile_def Let_def optimizedTile_def retained_solid [OF assms]
          layout_positive)
next
  case False
  then have oc: "oc = 0" by simp
  have "(case (NaN, multiply (floorQuotient k 0) ts) of
           (Finite dx, Finite dy) \<Rightarrow> f dx dy | _ \<Rightarrow> d) = d" for f :: "nat \<Rightarrow> nat \<Rightarrow> bitmap" and d
    by simp
  then show ?thesis
    by (simp add: oc placeTile_def Let_def optimizedTile_def retained_solid [OF assms]
          layout_zero)
qed

lemma place_fold:
  assumes "\<forall>c\<in>set cs. validCell src ts c"
  shows "bwidth (fst (fold (placeTile env ts oc)
                   (enumerate n (map (retained env src ts) (enumerate n cs))) st)) = bwidth (fst st)
       \<and> bheight (fst (fold (placeTile env ts oc)
                   (enumerate n (map (retained env src ts) (enumerate n cs))) st)) = bheight (fst st)
       \<and> snd (fold (placeTile env ts oc)
                   (enumerate n (map (retained env src ts) (enumerate n cs))) st)
           = snd st @ map (optimizedTile env src ts oc) (enumerate n cs)"
  using assms
proof (induction cs arbitrary: n st)
  case Nil
  show ?case by simp
next
  case (Cons c cs)
  have valid: "validCell src ts c" and rest: "\<forall>c\<in>set cs. validCell src ts c"
    using Cons.prems by auto
  show ?case
    using Cons.IH [OF rest, of "Suc n"]
    by (simp add: placeTile_retained [OF valid] drawImageAt_size)
qed

section \<open>Lemmas: the outcomes of processImage\<close>

lemma processImage_None_iff:
  "processImage env src opts = None \<longleftrightarrow> opt_tileSize opts = 0"
  by (simp add: processImage_def Let_def split_beta)

lemma processImage_invalid:
  assumes "0 < opt_tileSize opts"
    and "(bwidth src div opt_tileSize opts) * (bheight src div opt_tileSize opts) = 0"
  shows "processImage env src opts = Some (Inl InvalidDimensions)"
  using assms by (auto simp: processImage_def Let_def)

lemma processImage_no_context:
  assumes "0 < opt_tileSize opts"
    and "(bwidth src div opt_tileSize opts) * (bheight src div opt_tileSize opts) \<noteq> 0"
  shows "\<not> tempContext env
           \<Longrightarrow> processImage env src opts = Some (Inl TempContextUnavailable)"
    and "tempContext env \<Longrightarrow> \<not> resultContext env
           \<Longrightarrow> processImage env src opts = Some (Inl ResultContextUnavailable)"
  using assms by (auto simp: processImage_def Let_def)

lemma processImage_original:
  assumes "opt_mode opts = Original" and "0 < opt_tileSize opts"
    and "(bwidth src div opt_tileSize opts) * (bheight src div opt_tileSize opts) \<noteq> 0"
    and "tempContext env" and "resultContext env"
  shows "\<exists>d. processImage env src opts = Some (Inr
           \<lparr>dataUrl = d,
            width = (bwidth src div opt_tileSize opts) * opt_tileSize opts,
            height = (bheight src div opt_tileSize opts) * opt_tileSize opts,
            totalTiles = (bwidth src div opt_tileSize opts) * (bheight src div opt_tileSize opts),
            uniqueTiles = (bwidth src div opt_tileSize opts) * (bheight src div opt_tileSize opts),
            tiles = map (originalTile src (opt_tileSize opts) (bwidth src div opt_tileSize opts))
                      (gridCells (bwidth src div opt_tileSize opts)
                         (bheight src div opt_tileSize opts)),
            jsonContent = JSON_stringify (jsonOutput env (opt_tileSize opts) Original
               ((bwidth src div opt_tileSize opts) * opt_tileSize opts)
               ((bheight src div opt_tileSize opts) * opt_tileSize opts)
               (map (originalTile src (opt_tileSize opts) (bwidth src div opt_tileSize opts))
                      (gridCells (bwidth src div opt_tileSize opts)
                         (bheight src div opt_tileSize opts))))\<rparr>)"
  using assms
  by (simp add: processImage_def Let_def originalScan_tiles drawImage_def drawSamples_def
        clearRect_def createCanvas_def [of "_ * _"])

lemma processImage_optimized_any:
  assumes "opt_mode opts = Optimized" and "0 < opt_tileSize opts"
    and "(bwidth src div opt_tileSize opts) * (bheight src div opt_tileSize opts) \<noteq> 0"
    and "tempContext env" and "resultContext env"
  shows "\<exists>d. processImage env src opts = Some (Inr
           \<lparr>dataUrl = d,
            width = effectiveColumns opts * opt_tileSize opts,
            height = toUnsignedLong (multiply
                       (ceilQuotient (length (uniqueCells env src (opt_tileSize opts)))
                          (effectiveColumns opts)) (opt_tileSize opts)),
            totalTiles = (bwidth src div opt_tileSize opts) * (bheight src div opt_tileSize opts),
            uniqueTiles = length (uniqueCells env src (opt_tileSize opts)),
            tiles = map (optimizedTile env src (opt_tileSize opts) (effectiveColumns opts))
                      (enumerate 0 (uniqueCells env src (opt_tileSize opts))),
            jsonContent = JSON_stringify (jsonOutput env (opt_tileSize opts) Optimized
               (effectiveColumns opts * opt_tileSize opts)
               (toUnsignedLong (multiply
                       (ceilQuotient (length (uniqueCells env src (opt_tileSize opts)))
                          (effectiveColumns opts)) (opt_tileSize opts)))
               (map (optimizedTile env src (opt_tileSize opts) (effectiveColumns opts))
                      (enumerate 0 (uniqueCells env src (opt_tileSize opts)))))\<rparr>)"
proof -
  let ?ts = "opt_tileSize opts"
  let ?oc = "effectiveColumns opts"
  have valid: "\<forall>c\<in>set (uniqueCells env src ?ts). validCell src ?ts c"
    by (simp add: uniqueCells_valid)
  note pf = place_fold [OF valid, of env ?oc 0]
  show ?thesis
    using assms
    by (simp add: processImage_def Let_def split_beta optimizedScan_list pf clearRect_def
        createCanvas_def [of "_ * _"] effectiveColumns_def [symmetric])
qed

lemma processImage_optimized:
  assumes "opt_mode opts = Optimized" and "0 < opt_tileSize opts"
    and "0 < effectiveColumns opts"
    and "(bwidth src div opt_tileSize opts) * (bheight src div opt_tileSize opts) \<noteq> 0"
    and "tempContext env" and "resultContext env"
  shows "\<exists>d. processImage env src opts = Some (Inr
           \<lparr>dataUrl = d,
            width = effectiveColumns opts * opt_tileSize opts,
            height = nat \<lceil>real (length (uniqueCells env src (opt_tileSize opts)))
                            / real (effectiveColumns opts)\<rceil> * opt_tileSize opts,
            totalTiles = (bwidth src div opt_tileSize opts) * (bheight src div opt_tileSize opts),
            uniqueTiles = length (uniqueCells env src (opt_tileSize opts)),
            tiles = map (optimizedTile env src (opt_tileSize opts) (effectiveColumns opts))
                      (enumerate 0 (uniqueCells env src (opt_tileSize opts))),
            jsonContent = JSON_stringify (jsonOutput env (opt_tileSize opts) Optimized
               (effectiveColumns opts * opt_tileSize opts)
               (nat \<lceil>real (length (uniqueCells env src (opt_tileSize opts)))
                            / real (effectiveColumns opts)\<rceil> * opt_tileSize opts)
               (map (optimizedTile env src (opt_tileSize opts) (effectiveColumns opts))
                      (enumerate 0 (uniqueCells env src (opt_tileSize opts)))))\<rparr>)"
  using processImage_optimized_any [OF assms(1) assms(2) assms(4) assms(5) assms(6)]
  by (simp add: layout_positive(3) [OF assms(3)])

lemma processImage_Inr_D:
  assumes "processImage env src opts = Some (Inr r)"
  shows "0 < opt_tileSize opts"
    and "(bwidth src div opt_tileSize opts) * (bheight src div opt_tileSize opts) \<noteq> 0"
    and "tempContext env" and "resultContext env"
  using assms
  by (auto simp: processImage_def Let_def split_beta split: if_splits)

lemma processImage_succeeds:
  assumes "0 < opt_tileSize opts"
    and "(bwidth src div opt_tileSize opts) * (bheight src div opt_tileSize opts) \<noteq> 0"
    and "tempContext env" and "resultContext env"
  shows "\<exists>r. processImage env src opts = Some (Inr r)"
proof (cases "opt_mode opts")
  case Original
  from processImage_original [OF this assms] show ?thesis by blast
next
  case Optimized
  from processImage_optimized_any [OF this assms] show ?thesis by blast
qed

section \<open>Lemmas: first occurrences\<close>

lemma length_firstSeen_le: "length (firstSeen key cs) \<le> length cs"
proof (induction key cs rule: firstSeen.induct)
  case (1 key)
  show ?case by simp
next
  case (2 key c cs)
  have "length (filter (\<lambda>d. key d \<noteq> key c) cs) \<le> length cs" by simp
  with 2 show ?case by (simp del: length_filter_le)
qed

lemma firstSeen_distinct: "distinct (map key cs) \<Longrightarrow> firstSeen key cs = cs"
proof (induction cs)
  case Nil
  show ?case by simp
next
  case (Cons c cs)
  from Cons.prems have "key c \<notin> key ` set cs" and d: "distinct (map key cs)" by simp_all
  then have "\<forall>d\<in>set cs. key d \<noteq> key c" by (metis imageI)
  then have "filter (\<lambda>d. key d \<noteq> key c) cs = cs"
    by (simp only: filter_id_conv)
  with Cons.IH [OF d] show ?case by simp
qed

lemma firstSeen_full:
  "length (firstSeen key cs) = length cs \<Longrightarrow> distinct (map key cs)"
proof (induction key cs rule: firstSeen.induct)
  case (1 key)
  show ?case by simp
next
  case (2 key c cs)
  let ?f = "filter (\<lambda>d. key d \<noteq> key c) cs"
  have a: "length (firstSeen key ?f) \<le> length ?f" by (rule length_firstSeen_le)
  have b: "length ?f \<le> length cs" by simp
  from 2(2) have "length (firstSeen key ?f) = length cs" by simp
  with a b have full: "length (firstSeen key ?f) = length ?f" and same: "length ?f = length cs"
    by auto
  from same have id: "?f = cs"
    by (metis (mono_tags, lifting) filter_True length_filter_less not_less_iff_gr_or_eq)
  then have "key c \<notin> key ` set cs"
    by (metis (mono_tags, lifting) filter_id_conv image_iff)
  moreover from 2(1) full id have "distinct (map key cs)" by simp
  ultimately show ?case by simp
qed

lemma firstSeen_length_iff:
  "length (firstSeen key cs) = length cs \<longleftrightarrow> distinct (map key cs)"
  using firstSeen_full [of key cs] firstSeen_distinct [of key cs] by auto

lemma distinct_firstSeen_keys: "distinct (map key (firstSeen key cs))"
proof (induction key cs rule: firstSeen.induct)
  case (1 key)
  show ?case by simp
next
  case (2 key c cs)
  have "set (firstSeen key (filter (\<lambda>d. key d \<noteq> key c) cs))
          \<subseteq> set (filter (\<lambda>d. key d \<noteq> key c) cs)"
    by (rule set_firstSeen)
  then have "key c \<notin> key ` set (firstSeen key (filter (\<lambda>d. key d \<noteq> key c) cs))"
    by auto
  with 2 show ?case by simp
qed

lemma firstSeen_keys: "key ` set (firstSeen key cs) = key ` set cs"
proof (induction key cs rule: firstSeen.induct)
  case (1 key)
  show ?case by simp
next
  case (2 key c cs)
  have "key ` set cs = (key ` set (filter (\<lambda>d. key d \<noteq> key c) cs)) \<union> (key ` set cs \<inter> {key c})"
    by auto
  with 2 show ?case by auto
qed

lemma firstSeen_twins: "key c = key d \<Longrightarrow> firstSeen key [c, d] = [c]"
  by simp

lemma inj_distinct_map:
  "inj f \<Longrightarrow> distinct (map (\<lambda>c. f (g c)) cs) \<longleftrightarrow> distinct (map g cs)"
proof -
  assume "inj f"
  then have "map (\<lambda>c. f (g c)) cs = map f (map g cs)" and "inj_on f (set (map g cs))"
    by (simp_all add: inj_on_def inj_def)
  then show ?thesis by (simp only: distinct_map) simp
qed

lemma length_firstSeen_card: "length (firstSeen key cs) = card (key ` set cs)"
proof -
  have "length (firstSeen key cs) = length (map key (firstSeen key cs))" by simp
  also have "\<dots> = card (set (map key (firstSeen key cs)))"
    using distinct_firstSeen_keys [of key cs] by (simp only: distinct_card)
  also have "\<dots> = card (key ` set cs)" by (simp add: firstSeen_keys)
  finally show ?thesis .
qed

lemma firstSeen_same_key:
  "\<forall>d\<in>set cs. key d = key c \<Longrightarrow> firstSeen key (c # cs) = [c]"
proof -
  assume "\<forall>d\<in>set cs. key d = key c"
  then have "filter (\<lambda>d. key d \<noteq> key c) cs = []" by (simp add: filter_empty_conv)
  then show ?thesis by simp
qed

section \<open>Lemmas: Scenario B\<close>

lemma gridCells_2_1: "gridCells 2 1 = [(0, 0), (0, 1)]"
  by (simp add: gridCells_def upt_conv_Cons numeral_eq_Suc)

lemma twin_cellBytes:
  assumes "bwidth src = 96" and "bheight src = 48"
    and "\<forall>i<48. \<forall>j<48. pixelAt src (48 + i) j = pixelAt src i j"
  shows "cellBytes src 48 (0, 1) = cellBytes src 48 (0, 0)"
  unfolding cellBytes_def regionBytes_def regionPixels_def
  using assms
  by (intro arg_cong [where f = concat] arg_cong [where f = "map pixelBytes"] map_cong refl) simp

lemma ceiling_one_eighth: "nat \<lceil>real 1 / real 8\<rceil> = 1"
proof -
  have "\<lceil>(1::real) / 8\<rceil> = 1" by (simp add: ceiling_eq_iff)
  then show ?thesis by simp
qed

lemma twin_halves_result:
  assumes src: "bwidth src = 96" "bheight src = 48"
    "\<forall>i<48. \<forall>j<48. pixelAt src (48 + i) j = pixelAt src i j"
    and opts: "opt_tileSize opts = 48" "opt_mode opts = Optimized" "effectiveColumns opts = 8"
    and env: "tempContext env" "resultContext env"
  shows "\<exists>r. processImage env src opts = Some (Inr r)
           \<and> totalTiles r = 2 \<and> uniqueTiles r = 1 \<and> width r = 384 \<and> height r = 48
           \<and> tiles r = [\<lparr>tile_id = 0, tile_x = Finite 0, tile_y = Finite 0,
                          isSolid = (tileContext env 0
                                     \<and> bufferSolid 48 (cellBytes src 48 (0, 0)))\<rparr>]"
proof -
  have g: "gridCells (bwidth src div 48) (bheight src div 48) = [(0, 0), (0, 1)]"
    using gridCells_2_1 by (simp add: src)
  have v: "validCell src 48 (0, 0)" "validCell src 48 (0, 1)"
    by (simp_all add: validCell_def src)
  have "cellHash env src 48 (0, 0) = cellHash env src 48 (0, 1)"
    using same_bytes_hash [OF v(1) v(2)] twin_cellBytes [OF src] by simp
  then have u: "uniqueCells env src 48 = [(0, 0)]"
    unfolding uniqueCells_def g by (rule firstSeen_twins)
  have ts: "0 < opt_tileSize opts" and oc: "0 < effectiveColumns opts"
    and nz: "(bwidth src div opt_tileSize opts) * (bheight src div opt_tileSize opts) \<noteq> 0"
    by (simp_all add: opts src)
  from processImage_optimized [OF opts(2) ts oc nz env] show ?thesis
    using ceiling_one_eighth
    by (auto simp: opts src u optimizedTile_def enumerate_eq_zip layout_positive)
qed

section \<open>Lemmas: the ids pushed by the two modes\<close>

lemma optimizedTile_ids:
  "map tile_id (map (optimizedTile env src ts oc) (enumerate n cs)) = [n..<n + length cs]"
  by (simp add: optimizedTile_def comp_def enumerate_eq_zip map_fst_zip_take)

lemma originalTile_ids:
  "map tile_id (map (originalTile src ts cols) (gridCells cols rows)) = [0..<rows * cols]"
  using gridCells_ids [of cols rows] by (simp add: originalTile_def comp_def)

section \<open>Lemmas: the encoder of the examples\<close>

lemma byteChar_inj: "inj byteChar"
proof (rule inj_on_inverseI)
  fix b :: byte
  have "unat b < 256" using unsigned_less [of b] by simp
  then have "of_char (byteChar b) = unat b" by (simp add: byteChar_def)
  then show "(of_nat (of_char (byteChar b)) :: byte) = b" by simp
qed

lemma hd_cellBytes:
  assumes "validCell src ts c"
  shows "hd (cellBytes src ts c) = fst (cellPixel src ts c 0 0)"
proof -
  have ts: "0 < ts" using assms by (rule validCell_positive)
  have inx: "snd c * ts + 0 < bwidth src" and iny: "fst c * ts + 0 < bheight src"
    using assms ts cell_in_bounds [of "snd c" "bwidth src" ts 0]
      cell_in_bounds [of "fst c" "bheight src" ts 0]
    by (simp_all add: validCell_def)
  obtain r g b a where p: "pixelAt src (snd c * ts) (fst c * ts) = (r, g, b, a)"
    by (cases "pixelAt src (snd c * ts) (fst c * ts)") auto
  have "[0..<ts] = 0 # [1..<ts]" using ts by (simp add: upt_conv_Cons)
  then show ?thesis
    using inx iny by (simp add: cellBytes_def regionBytes_def regionPixels_def cellPixel_def p)
qed

lemma hd_renderedBytes:
  assumes "validCell src ts c"
  shows "hd (renderedBytes src ts c) = fst (unpremultiply (premultiply (cellPixel src ts c 0 0)))"
proof -
  have ts: "0 < ts" using assms by (rule validCell_positive)
  obtain r g b a where p: "unpremultiply (premultiply (cellPixel src ts c 0 0)) = (r, g, b, a)"
    by (cases "unpremultiply (premultiply (cellPixel src ts c 0 0))") auto
  have "[0..<ts] = 0 # [1..<ts]" using ts by (simp add: upt_conv_Cons)
  then show ?thesis
    using ts
    by (simp add: renderedBytes_def regionBytes_def regionPixels_def straight_def
          cellCanvas_def p)
qed

lemma length_regionPixels: "length (regionPixels c sx sy sw sh) = sh * sw"
  unfolding regionPixels_def by (induction sh) simp_all

lemma length_pixel_bytes: "length (concat (map pixelBytes pxs)) = 4 * length pxs"
proof (induction pxs)
  case Nil
  show ?case by simp
next
  case (Cons p ps)
  obtain r g b a where "p = (r, g, b, a)" by (cases p) auto
  with Cons show ?case by simp
qed

lemma length_regionBytes: "length (regionBytes c sx sy sw sh) = 4 * (sh * sw)"
  by (simp only: regionBytes_def length_pixel_bytes length_regionPixels)

lemma hd_demo_hash:
  assumes "validCell src ts c" and "alpha (cellPixel src ts c 0 0) = 255"
  shows "hd (cellHash demoBrowser src ts c) = byteChar (fst (cellPixel src ts c 0 0))"
proof -
  have ts: "0 < ts" using assms(1) by (rule validCell_positive)
  have "length (renderedBytes src ts c) = 4 * (ts * ts)"
    by (simp only: renderedBytes_def length_regionBytes)
  with ts have "renderedBytes src ts c \<noteq> []" by auto
  then show ?thesis
    using hd_renderedBytes [OF assms(1)] opaque_exact [OF assms(2)] ts
    by (simp add: cellHash_rendered demoBrowser_def hd_map)
qed

lemma distinct_by_hd:
  assumes "distinct (map (\<lambda>c. hd (f c)) cs)"
  shows "distinct (map f cs)"
proof -
  have "map (\<lambda>c. hd (f c)) cs = map hd (map f cs)" by simp
  with assms show ?thesis by (metis distinct_map)
qed

section \<open>Lemmas: the output images\<close>

lemma original_canvas:
  "drawImage bl
     (clearRect (createCanvas ((bwidth src div ts) * ts) ((bheight src div ts) * ts)) 0 0
        ((bwidth src div ts) * ts) ((bheight src div ts) * ts))
     src 0 0 ((bwidth src div ts) * ts) ((bheight src div ts) * ts) 0 0
   = croppedSource src ts"
proof -
  let ?c = "drawImage bl
     (clearRect (createCanvas ((bwidth src div ts) * ts) ((bheight src div ts) * ts)) 0 0
        ((bwidth src div ts) * ts) ((bheight src div ts) * ts))
     src 0 0 ((bwidth src div ts) * ts) ((bheight src div ts) * ts) 0 0"
  have w: "i < bwidth src" if "i < (bwidth src div ts) * ts" for i
  proof -
    have "(bwidth src div ts) * ts \<le> bwidth src" by simp
    with that show ?thesis by (rule less_le_trans)
  qed
  have h: "j < bheight src" if "j < (bheight src div ts) * ts" for j
  proof -
    have "(bheight src div ts) * ts \<le> bheight src" by simp
    with that show ?thesis by (rule less_le_trans)
  qed
  have "pixelAt ?c i j = pixelAt (croppedSource src ts) i j" for i j
    using w [of i] h [of j]
    by (simp add: drawImage_def drawSamples_def premultiplied_def clearRect_def createCanvas_def
          croppedSource_def sourceOver_transparent)
  then show ?thesis
    by (intro bitmap.equality ext)
       (simp_all add: drawImage_def drawSamples_def clearRect_def createCanvas_def
          croppedSource_def)
qed

lemma croppedSource_cell:
  assumes "validCell src ts (row, col)"
  shows "regionBytes (straight (croppedSource src ts)) (col * ts) (row * ts) ts ts
           = renderedBytes src ts (row, col)"
proof -
  have inx: "\<And>i. i < ts \<Longrightarrow> col * ts + i < (bwidth src div ts) * ts"
    and iny: "\<And>j. j < ts \<Longrightarrow> row * ts + j < (bheight src div ts) * ts"
    using assms cell_in_bounds [of col "(bwidth src div ts) * ts" ts]
      cell_in_bounds [of row "(bheight src div ts) * ts" ts]
    by (simp_all add: validCell_def)
  have "regionPixels (croppedSource src ts) (col * ts) (row * ts) ts ts
          = regionPixels (cellCanvas src ts (row, col)) 0 0 ts ts"
    unfolding regionPixels_def
    by (intro arg_cong [where f = concat] map_cong refl)
       (simp add: croppedSource_def cellCanvas_def cellPixel_def inx iny)
  then show ?thesis
    by (simp add: renderedBytes_def regionBytes_def regionPixels_straight)
qed

lemma processImage_original_dataUrl:
  assumes "processImage env src opts = Some (Inr r)" and "opt_mode opts = Original"
  shows "dataUrl r = toDataURL env (croppedSource src (opt_tileSize opts))"
  using assms original_canvas [of "blend env" src "opt_tileSize opts"]
  by (auto simp: processImage_def Let_def split_beta split: if_splits)

lemma slot_eq:
  assumes "r < (C::nat)"
  shows "q * C + r = m \<longleftrightarrow> q = m div C \<and> r = m mod C"
proof
  assume "q * C + r = m"
  then have m: "m = r + q * C" by linarith
  show "q = m div C \<and> r = m mod C" using assms by (simp add: m)
next
  assume "q = m div C \<and> r = m mod C"
  then show "q * C + r = m" by simp
qed

lemma in_slot:
  assumes "0 < (ts::nat)"
  shows "a * ts \<le> i \<and> i < a * ts + ts \<longleftrightarrow> i div ts = a"
proof
  assume b: "a * ts \<le> i \<and> i < a * ts + ts"
  define d where "d = i - a * ts"
  from b have d: "i = d + a * ts" and "d < ts" unfolding d_def by linarith+
  then show "i div ts = a" by simp
next
  assume e: "i div ts = a"
  have "i = i div ts * ts + i mod ts" by simp
  then have "i = a * ts + i mod ts" by (simp only: e)
  moreover have "i mod ts < ts" using assms by simp
  ultimately show "a * ts \<le> i \<and> i < a * ts + ts" by linarith
qed

lemma slot_offset: "i div ts = a \<Longrightarrow> i - a * ts = i mod (ts::nat)"
  by (auto simp: minus_div_mult_eq_mod)

lemma atlas_step:
  assumes m: "m < length cells" and ts: "0 < ts" and C: "0 < C"
  shows "drawImageAt bl (atlasUpTo env src ts C cells m)
           (fst (retained env src ts (m, cells ! m))) ((m mod C) * ts) ((m div C) * ts)
         = atlasUpTo env src ts C cells (Suc m)"
proof -
  let ?W = "C * ts"
  let ?H = "nat \<lceil>real (length cells) / real C\<rceil> * ts"
  let ?tile = "fst (retained env src ts (m, cells ! m))"
  let ?lhs = "drawImageAt bl (atlasUpTo env src ts C cells m) ?tile ((m mod C) * ts) ((m div C) * ts)"
  have size: "bwidth ?tile = ts" "bheight ?tile = ts"
    by (simp_all add: retained_def cellCanvas_def createCanvas_def)
  have tilepx: "pixelAt ?tile a b
      = (if tileContext env m \<and> a < ts \<and> b < ts
         then premultiply (cellPixel src ts (cells ! m) a b) else transparent)"
    for a b
    by (simp add: retained_def cellCanvas_def createCanvas_def)
  have "pixelAt ?lhs i j = pixelAt (atlasUpTo env src ts C cells (Suc m)) i j" for i j
  proof (cases "i < ?W \<and> j < ?H")
    case False
    then show ?thesis
      by (auto simp: drawImageAt_def drawSamples_def atlasUpTo_def Let_def)
  next
    case True
    then have r: "i div ts < C" using ts by (simp add: less_mult_imp_div_less)
    let ?k = "(j div ts) * C + i div ts"
    have km: "?k = m \<longleftrightarrow> j div ts = m div C \<and> i div ts = m mod C"
      using r by (rule slot_eq)
    have rect: "((m mod C) * ts \<le> i \<and> i < (m mod C) * ts + ts
                 \<and> (m div C) * ts \<le> j \<and> j < (m div C) * ts + ts) \<longleftrightarrow> ?k = m"
      using in_slot [OF ts, of "m mod C" i] in_slot [OF ts, of "m div C" j] km by blast
    show ?thesis
    proof (cases "?k = m")
      case k: True
      then have di: "i div ts = m mod C" and dj: "j div ts = m div C" using km by simp_all
      have oi: "i - (m mod C) * ts = i mod ts" using di by (rule slot_offset)
      have oj: "j - (m div C) * ts = j mod ts" using dj by (rule slot_offset)
      have inrect: "(m mod C) * ts \<le> i \<and> i < (m mod C) * ts + ts
                 \<and> (m div C) * ts \<le> j \<and> j < (m div C) * ts + ts"
        using rect k by simp
      have old: "pixelAt (atlasUpTo env src ts C cells m) i j = transparent"
        using k by (simp add: atlasUpTo_def Let_def)
      have new: "pixelAt (atlasUpTo env src ts C cells (Suc m)) i j
                   = pixelAt ?tile (i mod ts) (j mod ts)"
        using k True m ts by (simp add: atlasUpTo_def Let_def tilepx)
      have "pixelAt ?lhs i j = sourceOver bl (pixelAt ?tile (i mod ts) (j mod ts)) transparent"
        using inrect True ts old
        by (simp add: drawImageAt_def drawSamples_def size oi oj)
           (simp add: atlasUpTo_def)
      then show ?thesis by (simp add: new sourceOver_transparent)
    next
      case k: False
      then have notrect: "\<not> ((m mod C) * ts \<le> i \<and> i < (m mod C) * ts + ts
                 \<and> (m div C) * ts \<le> j \<and> j < (m div C) * ts + ts)"
        using rect by simp
      have "pixelAt ?lhs i j = pixelAt (atlasUpTo env src ts C cells m) i j"
        using notrect by (auto simp: drawImageAt_def drawSamples_def size)
      also have "\<dots> = pixelAt (atlasUpTo env src ts C cells (Suc m)) i j"
        using k by (auto simp: atlasUpTo_def Let_def less_Suc_eq)
      finally show ?thesis .
    qed
  qed
  then show ?thesis
    by (intro bitmap.equality ext)
       (simp_all add: drawImageAt_def drawSamples_def atlasUpTo_def)
qed

lemma createCanvas_size: "bwidth (createCanvas w h) = w" "bheight (createCanvas w h) = h"
  by (simp_all add: createCanvas_def)

lemma atlas_blank:
  "clearRect (createCanvas (C * ts) (nat \<lceil>real (length cells) / real C\<rceil> * ts)) 0 0
     (C * ts) (nat \<lceil>real (length cells) / real C\<rceil> * ts)
   = atlasUpTo env src ts C cells 0"
  by (intro bitmap.equality ext)
     (simp_all add: clearRect_def createCanvas_def atlasUpTo_def)

lemma atlas_fold:
  assumes valid: "\<forall>c\<in>set cells. validCell src ts c" and ts: "0 < ts" and C: "0 < C"
  shows "cells = pre @ cs \<Longrightarrow> length pre = m
    \<Longrightarrow> fst (fold (placeTile env ts C)
              (enumerate m (map (retained env src ts) (enumerate m cs)))
              (atlasUpTo env src ts C cells m, acc))
        = atlasUpTo env src ts C cells (m + length cs)"
proof (induction cs arbitrary: pre m acc)
  case Nil
  show ?case by simp
next
  case (Cons c cs)
  have c: "cells ! m = c" and mlt: "m < length cells"
    using Cons.prems by (simp_all add: nth_append)
  have v: "validCell src ts c" using valid Cons.prems(1) by simp
  have step: "placeTile env ts C (m, retained env src ts (m, c)) (atlasUpTo env src ts C cells m, acc)
      = (atlasUpTo env src ts C cells (Suc m), acc @ [optimizedTile env src ts C (m, c)])"
    using atlas_step [OF mlt ts C, of "blend env" env src] C
    by (simp add: placeTile_retained [OF v] c)
  have "cells = (pre @ [c]) @ cs" and "length (pre @ [c]) = Suc m"
    using Cons.prems by simp_all
  from Cons.IH [OF this] show ?case
    by (simp add: step)
qed

lemma processImage_optimized_dataUrl:
  assumes "processImage env src opts = Some (Inr r)" and "opt_mode opts = Optimized"
    and C: "0 < effectiveColumns opts"
  shows "dataUrl r = toDataURL env (atlas env src (opt_tileSize opts) (effectiveColumns opts))"
proof -
  let ?ts = "opt_tileSize opts"
  let ?C = "effectiveColumns opts"
  let ?cells = "uniqueCells env src ?ts"
  note pre = processImage_Inr_D [OF assms(1)]
  have valid: "\<forall>c\<in>set ?cells. validCell src ?ts c" by (simp add: uniqueCells_valid)
  have "fst (fold (placeTile env ?ts ?C)
              (enumerate 0 (map (retained env src ?ts) (enumerate 0 ?cells)))
              (atlasUpTo env src ?ts ?C ?cells 0, []))
        = atlasUpTo env src ?ts ?C ?cells (0 + length ?cells)"
    using valid pre(1) C by (rule atlas_fold) simp_all
  then have canvas: "fst (fold (placeTile env ?ts ?C)
              (enumerate 0 (map (retained env src ?ts) (enumerate 0 ?cells)))
              (clearRect (createCanvas (?C * ?ts) (nat \<lceil>real (length ?cells) / real ?C\<rceil> * ?ts))
                 0 0 (?C * ?ts) (nat \<lceil>real (length ?cells) / real ?C\<rceil> * ?ts), []))
        = atlas env src ?ts ?C"
    by (simp add: atlas_blank [of ?C ?ts ?cells env src] atlas_def)
  show ?thesis
    using assms pre(1) canvas
    by (auto simp: processImage_def Let_def split_beta optimizedScan_list
          effectiveColumns_def [symmetric] createCanvas_size layout_positive(3) [OF C]
          split: if_splits)
qed

lemma processImage_canvas:
  assumes "processImage env src opts = Some (Inr r)"
  shows "\<exists>c. dataUrl r = toDataURL env c \<and> width r = bwidth c \<and> height r = bheight c"
  using assms
  by (auto simp: processImage_def Let_def split_beta split: if_splits)

lemma processImage_zero_dataUrl:
  assumes "processImage env src opts = Some (Inr r)" and "opt_mode opts = Optimized"
    and C: "effectiveColumns opts = 0"
  shows "dataUrl r = ''data:,''" and "width r = 0" and "height r = 0"
proof -
  note pre = processImage_Inr_D [OF assms(1)]
  from processImage_optimized_any [OF assms(2) pre] assms(1)
  show w: "width r = 0" and "height r = 0" by (auto simp: C layout_zero)
  from processImage_canvas [OF assms(1)] obtain c
    where "dataUrl r = toDataURL env c" and "width r = bwidth c" by blast
  with w show "dataUrl r = ''data:,''" by (simp add: toDataURL_def)
qed

lemma rows_cover:
  assumes "i < u" and "0 < C"
  shows "i div C < nat \<lceil>real u / real C\<rceil>"
proof -
  have "real u / real C \<le> real_of_int \<lceil>real u / real C\<rceil>" by (rule le_of_int_ceiling)
  moreover have "0 < real C" using assms(2) by simp
  ultimately have "real u \<le> real_of_int \<lceil>real u / real C\<rceil> * real C"
    by (simp only: pos_divide_le_eq)
  moreover have "0 \<le> \<lceil>real u / real C\<rceil>"
  proof -
    have "(0::real) \<le> real u / real C" by simp
    then have "\<lceil>0::real\<rceil> \<le> \<lceil>real u / real C\<rceil>" by (rule ceiling_mono)
    then show ?thesis by simp
  qed
  ultimately have "real u \<le> real (nat \<lceil>real u / real C\<rceil> * C)" by simp
  then have "u \<le> nat \<lceil>real u / real C\<rceil> * C" by (simp only: of_nat_le_iff)
  with assms(1) have "i < nat \<lceil>real u / real C\<rceil> * C" by simp
  then show ?thesis by (rule less_mult_imp_div_less)
qed

lemma atlas_cell:
  assumes i: "i < length cells" and ctx: "tileContext env i"
    and v: "validCell src ts (cells ! i)" and C: "0 < C"
  shows "regionBytes (straight (atlasUpTo env src ts C cells (length cells)))
           ((i mod C) * ts) ((i div C) * ts) ts ts
         = renderedBytes src ts (cells ! i)"
proof -
  let ?R = "nat \<lceil>real (length cells) / real C\<rceil>"
  let ?A = "atlasUpTo env src ts C cells (length cells)"
  have ts: "0 < ts" using v by (rule validCell_positive)
  have px: "(if (i mod C) * ts + a < bwidth ?A \<and> (i div C) * ts + b < bheight ?A
             then pixelAt ?A ((i mod C) * ts + a) ((i div C) * ts + b)
             else transparent)
          = (if 0 + a < bwidth (cellCanvas src ts (cells ! i))
                \<and> 0 + b < bheight (cellCanvas src ts (cells ! i))
             then pixelAt (cellCanvas src ts (cells ! i)) (0 + a) (0 + b)
             else transparent)"
    if a: "a < ts" and b: "b < ts" for a b
  proof -
    have inx: "(i mod C) * ts + a < C * ts"
      using cell_in_bounds [of "i mod C" "C * ts" ts a] a C ts by simp
    have "i div C < ?R" using i C by (rule rows_cover)
    then have iny: "(i div C) * ts + b < ?R * ts"
      using cell_in_bounds [of "i div C" "?R * ts" ts b] b ts by simp
    have dx: "((i mod C) * ts + a) div ts = i mod C" and mx: "((i mod C) * ts + a) mod ts = a"
      using a by simp_all
    have dy: "((i div C) * ts + b) div ts = i div C" and my: "((i div C) * ts + b) mod ts = b"
      using b by simp_all
    show ?thesis
      using inx iny i ctx a b
      by (simp add: atlasUpTo_def cellCanvas_def Let_def dx mx dy my)
  qed
  have "regionPixels ?A ((i mod C) * ts) ((i div C) * ts) ts ts
          = regionPixels (cellCanvas src ts (cells ! i)) 0 0 ts ts"
    unfolding regionPixels_def
    by (intro arg_cong [where f = concat] map_cong refl) (simp add: px)
  then show ?thesis
    by (simp add: renderedBytes_def regionBytes_def regionPixels_straight)
qed

section \<open>Lemmas: Scenario E\<close>

lemma gridCells_10_1:
  "gridCells 10 1 = [(0, 0), (0, 1), (0, 2), (0, 3), (0, 4), (0, 5), (0, 6), (0, 7), (0, 8), (0, 9)]"
  by (simp add: gridCells_def upt_conv_Cons numeral_eq_Suc)

lemma ceiling_ten_eighths: "nat \<lceil>real 10 / real 8\<rceil> = 2"
proof -
  have "\<lceil>(10::real) / 8\<rceil> = 2" by (simp add: ceiling_eq_iff)
  then show ?thesis by simp
qed

lemma distinct_byteChar: "distinct (map byteChar bs) \<longleftrightarrow> distinct bs"
proof -
  have "inj_on byteChar (set bs)" using byteChar_inj by (rule inj_on_subset) simp
  then show ?thesis by (simp add: distinct_map)
qed

lemma strip480_hashes: "distinct (map (cellHash demoBrowser strip480 48) (gridCells 10 1))"
proof (rule distinct_by_hd)
  have "map (\<lambda>c. hd (cellHash demoBrowser strip480 48 c)) (gridCells 10 1)
          = map (\<lambda>c. byteChar (fst (cellPixel strip480 48 c 0 0))) (gridCells 10 1)"
    by (rule map_cong [OF refl], rule hd_demo_hash)
       (simp_all add: validCell_def set_gridCells strip480_def cellPixel_def)
  also have "\<dots> = map byteChar [0, 1, 2, 3, 4, 5, 6, 7, 8, 9]"
    unfolding gridCells_10_1 by (simp add: strip480_def cellPixel_def)
  finally show "distinct (map (\<lambda>c. hd (cellHash demoBrowser strip480 48 c)) (gridCells 10 1))"
    by (simp only: distinct_byteChar) simp
qed

section \<open>Lemmas: tiles that differ in a hidden colour\<close>

lemma hidden480_bytes: "distinct (map (cellBytes hidden480 48) (gridCells 10 1))"
proof (rule distinct_by_hd)
  have "map (\<lambda>c. hd (cellBytes hidden480 48 c)) (gridCells 10 1)
          = map (\<lambda>c. fst (cellPixel hidden480 48 c 0 0)) (gridCells 10 1)"
    by (rule map_cong [OF refl], rule hd_cellBytes)
       (simp_all add: validCell_def set_gridCells hidden480_def)
  also have "\<dots> = [0, 1, 2, 3, 4, 5, 6, 7, 8, 9]"
    unfolding gridCells_10_1 by (simp add: hidden480_def cellPixel_def)
  finally show "distinct (map (\<lambda>c. hd (cellBytes hidden480 48 c)) (gridCells 10 1))"
    by simp
qed

lemma hidden480_canvas: "cellCanvas hidden480 48 (0, k) = cellCanvas hidden480 48 (0, 0)"
proof (rule hidden_colour_canvas, intro allI impI)
  fix i j :: nat
  assume i: "i < 48" and j: "j < 48"
  have m: "(k * 48 + i) mod 48 = i" and d: "(k * 48 + i) div 48 = k" using i by simp_all
  show "cellPixel hidden480 48 (0, k) i j = cellPixel hidden480 48 (0, 0) i j
          \<or> (alpha (cellPixel hidden480 48 (0, k) i j) = 0
             \<and> alpha (cellPixel hidden480 48 (0, 0) i j) = 0)"
    using i by (simp add: cellPixel_def hidden480_def m d)
qed

lemma hidden480_unique: "uniqueCells env hidden480 48 = [(0, 0)]"
proof -
  have g: "gridCells (bwidth hidden480 div 48) (bheight hidden480 div 48)
             = (0, 0) # tl (gridCells 10 1)"
    using gridCells_10_1 by (simp add: hidden480_def)
  have "cellHash env hidden480 48 d = cellHash env hidden480 48 (0, 0)"
    if "d \<in> set (tl (gridCells 10 1))" for d
  proof -
    have "gridCells 10 1 \<noteq> []" unfolding gridCells_10_1 by simp
    from list.set_sel(2) [OF this that] have "fst d < 1" by (simp only: set_gridCells)
    then have "d = (0, snd d)" by (simp add: prod_eq_iff)
    then show ?thesis using hidden480_canvas [of "snd d"] by (simp add: cellHash_def)
  qed
  then have "\<forall>d\<in>set (tl (gridCells 10 1)).
          cellHash env hidden480 48 d = cellHash env hidden480 48 (0, 0)"
    by blast
  then show ?thesis
    unfolding uniqueCells_def g by (rule firstSeen_same_key)
qed

lemma hidden480_result:
  assumes "tempContext env" and "resultContext env"
  shows "\<exists>r. processImage env hidden480 optimized48 = Some (Inr r)
           \<and> totalTiles r = 10 \<and> uniqueTiles r = 1 \<and> width r = 384 \<and> height r = 48"
proof -
  have o: "opt_mode optimized48 = Optimized" "0 < opt_tileSize optimized48"
    "0 < effectiveColumns optimized48"
    "(bwidth hidden480 div opt_tileSize optimized48)
       * (bheight hidden480 div opt_tileSize optimized48) \<noteq> 0"
    by (simp_all add: optimized48_def effectiveColumns_def hidden480_def)
  from processImage_optimized [OF o assms] show ?thesis
    using ceiling_one_eighth
    by (auto simp: optimized48_def effectiveColumns_def hidden480_def [THEN arg_cong, of bwidth]
          hidden480_def [THEN arg_cong, of bheight] hidden480_unique)
qed

section \<open>Lemmas: what a run owes to the browser\<close>

lemma toDataURL_encoder: "encodePNG env1 = encodePNG env2 \<Longrightarrow> toDataURL env1 c = toDataURL env2 c"
  by (simp add: toDataURL_def)

lemma cellHash_encoder:
  "encodePNG env1 = encodePNG env2 \<Longrightarrow> cellHash env1 src ts = cellHash env2 src ts"
  using toDataURL_encoder [of env1 env2] by (intro ext) (simp add: cellHash_def)

lemma uniqueCells_encoder:
  "encodePNG env1 = encodePNG env2 \<Longrightarrow> uniqueCells env1 src ts = uniqueCells env2 src ts"
  using cellHash_encoder [of env1 env2 src ts] by (simp add: uniqueCells_def)

lemma optimizedTile_contexts:
  "tileContext env1 = tileContext env2
     \<Longrightarrow> optimizedTile env1 src ts oc = optimizedTile env2 src ts oc"
  by (intro ext) (simp add: optimizedTile_def)

lemma atlas_browser:
  assumes "encodePNG env1 = encodePNG env2" and "tileContext env1 = tileContext env2"
  shows "atlas env1 src ts oc = atlas env2 src ts oc"
  by (simp add: atlas_def atlasUpTo_def uniqueCells_encoder [OF assms(1)] assms(2))

section \<open>Lemmas: the order of the fingerprint map\<close>

lemma scan_keys:
  assumes step: "\<And>ks k. take (mapSlot env (f ks) k) (f ks) @ [k] @ drop (mapSlot env (f ks) k) (f ks)
                            = f (ks @ [k])"
    and "\<forall>c\<in>set cs. validCell src ts c"
    and "scratchCanvas ts (tempCanvas st)"
    and "map fst (uniqueTilesMap st) = f (map snd (uniqueTilesList st))"
  shows "map fst (uniqueTilesMap (fold (\<lambda>c. optimizedCell env src ts (fst c) (snd c)) cs st))
           = f (map snd (uniqueTilesList
                  (fold (\<lambda>c. optimizedCell env src ts (fst c) (snd c)) cs st)))"
  using assms(2-)
proof (induction cs arbitrary: st)
  case Nil
  then show ?case by simp
next
  case (Cons c cs)
  let ?h = "cellHash env src ts c"
  let ?st = "optimizedCell env src ts (fst c) (snd c) st"
  have valid: "validCell src ts c" and rest: "\<forall>c\<in>set cs. validCell src ts c"
    using Cons.prems(1) by auto
  note cell = optimizedCell_valid [OF Cons.prems(2) valid, of env]
  have 1: "scratchCanvas ts (tempCanvas ?st)"
    by (simp add: cell scratchCanvas_cell)
  have 2: "map fst (uniqueTilesMap ?st) = f (map snd (uniqueTilesList ?st))"
  proof (cases "Map_has (uniqueTilesMap st) ?h")
    case True
    then show ?thesis using Cons.prems(3) by (simp add: cell)
  next
    case False
    then show ?thesis
      using step [of "map snd (uniqueTilesList st)" ?h]
      by (simp add: cell Map_set_keys [OF False] Cons.prems(3) retained_def)
  qed
  from Cons.IH [OF rest 1 2] show ?case by simp
qed

lemma mapKeys_scan:
  assumes "\<And>ks k. take (mapSlot env (f ks) k) (f ks) @ [k] @ drop (mapSlot env (f ks) k) (f ks)
                     = f (ks @ [k])"
    and "f [] = []"
  shows "mapKeys env src ts = f (map (cellHash env src ts) (uniqueCells env src ts))"
proof -
  have valid: "\<forall>c\<in>set (gridCells (bwidth src div ts) (bheight src div ts)). validCell src ts c"
    by (simp add: set_gridCells validCell_def)
  have 1: "scratchCanvas ts (tempCanvas (initialScan ts))"
    by (simp add: initialScan_def scratchCanvas_create)
  have 2: "map fst (uniqueTilesMap (initialScan ts)) = f (map snd (uniqueTilesList (initialScan ts)))"
    by (simp add: initialScan_def assms(2))
  have "map snd (map (retained env src ts) (enumerate 0 cs)) = map (cellHash env src ts) cs" for cs
  proof -
    have "map snd (map (retained env src ts) (enumerate 0 cs))
            = map (cellHash env src ts \<circ> snd) (enumerate 0 cs)"
      by (simp add: retained_def comp_def)
    also have "\<dots> = map (cellHash env src ts) (map snd (enumerate 0 cs))"
      by (simp only: map_map)
    also have "\<dots> = map (cellHash env src ts) cs"
      by (simp only: map_snd_enumerate)
    finally show ?thesis .
  qed
  with scan_keys [of env f, OF assms(1) valid 1 2] show ?thesis
    using optimizedScan_list [of env src ts]
    by (simp add: mapKeys_def optimizedScan_def fold_nested gridCells_def initialScan_def)
qed

lemma mapKeys_insertion:
  assumes "mapSlot env = (\<lambda>keys k. length keys)"
  shows "mapKeys env src ts = map (cellHash env src ts) (uniqueCells env src ts)"
  using mapKeys_scan [of env "\<lambda>ks. ks" src ts] by (simp add: assms)

lemma mapKeys_front:
  assumes "mapSlot env = (\<lambda>keys k. 0)"
  shows "mapKeys env src ts = rev (map (cellHash env src ts) (uniqueCells env src ts))"
  using mapKeys_scan [of env rev src ts] by (simp add: assms)

section \<open>Lemmas: a source with a repeated tile\<close>

lemma gridCells_4_1: "gridCells 4 1 = [(0, 0), (0, 1), (0, 2), (0, 3)]"
  by (simp add: gridCells_def upt_conv_Cons numeral_eq_Suc)

lemma motif_pixel:
  assumes "i < 48"
  shows "cellPixel motif192 48 (0, k) i j
           = (if k = 1 then 20 else if k = 3 then 30 else 10, 0, 0, 255)"
proof -
  have "(k * 48 + i) div 48 = k" using assms by simp
  then show ?thesis by (simp add: cellPixel_def motif192_def)
qed

lemma motif_repeat: "cellHash env motif192 48 (0, 2) = cellHash env motif192 48 (0, 0)"
proof -
  have "cellCanvas motif192 48 (0, 2) = cellCanvas motif192 48 (0, 0)"
    by (rule hidden_colour_canvas) (simp add: motif_pixel)
  then show ?thesis by (simp add: cellHash_def)
qed

lemma motif_first_byte:
  assumes "k < 4"
  shows "hd (cellHash demoBrowser motif192 48 (0, k))
           = byteChar (if k = 1 then 20 else if k = 3 then 30 else 10)"
proof -
  have "validCell motif192 48 (0, k)" using assms by (simp add: validCell_def motif192_def)
  moreover have "alpha (cellPixel motif192 48 (0, k) 0 0) = 255" by (simp add: motif_pixel)
  ultimately have "hd (cellHash demoBrowser motif192 48 (0, k))
                     = byteChar (fst (cellPixel motif192 48 (0, k) 0 0))"
    by (rule hd_demo_hash)
  then show ?thesis by (simp add: motif_pixel)
qed

lemma motif_differ:
  "cellHash demoBrowser motif192 48 (0, 1) \<noteq> cellHash demoBrowser motif192 48 (0, 0)"
  "cellHash demoBrowser motif192 48 (0, 3) \<noteq> cellHash demoBrowser motif192 48 (0, 0)"
  "cellHash demoBrowser motif192 48 (0, 3) \<noteq> cellHash demoBrowser motif192 48 (0, 1)"
proof -
  have b: "byteChar x = byteChar y \<longleftrightarrow> x = y" for x y
    using byteChar_inj by (simp add: inj_eq)
  have h: "hd (cellHash demoBrowser motif192 48 (0, 0)) = byteChar 10"
    "hd (cellHash demoBrowser motif192 48 (0, 1)) = byteChar 20"
    "hd (cellHash demoBrowser motif192 48 (0, 3)) = byteChar 30"
    using motif_first_byte [of 0] motif_first_byte [of 1] motif_first_byte [of 3] by simp_all
  have "hd (cellHash demoBrowser motif192 48 (0, 1)) \<noteq> hd (cellHash demoBrowser motif192 48 (0, 0))"
    unfolding h by (simp add: b)
  then show "cellHash demoBrowser motif192 48 (0, 1) \<noteq> cellHash demoBrowser motif192 48 (0, 0)"
    by auto
  have "hd (cellHash demoBrowser motif192 48 (0, 3)) \<noteq> hd (cellHash demoBrowser motif192 48 (0, 0))"
    unfolding h by (simp add: b)
  then show "cellHash demoBrowser motif192 48 (0, 3) \<noteq> cellHash demoBrowser motif192 48 (0, 0)"
    by auto
  have "hd (cellHash demoBrowser motif192 48 (0, 3)) \<noteq> hd (cellHash demoBrowser motif192 48 (0, 1))"
    unfolding h by (simp add: b)
  then show "cellHash demoBrowser motif192 48 (0, 3) \<noteq> cellHash demoBrowser motif192 48 (0, 1)"
    by auto
qed

lemma motif_unique: "uniqueCells demoBrowser motif192 48 = [(0, 0), (0, 1), (0, 3)]"
proof -
  have g: "gridCells (bwidth motif192 div 48) (bheight motif192 div 48)
             = [(0, 0), (0, 1), (0, 2), (0, 3)]"
    using gridCells_4_1 by (simp add: motif192_def)
  show ?thesis
    unfolding uniqueCells_def g
    by (simp add: motif_repeat motif_differ del: One_nat_def)
qed

lemma motif_unique_later: "uniqueCells laterBrowser motif192 48 = [(0, 0), (0, 1), (0, 3)]"
proof -
  have "encodePNG laterBrowser = encodePNG demoBrowser" by (simp add: laterBrowser_def)
  from uniqueCells_encoder [OF this, of motif192 48] show ?thesis
    by (simp only: motif_unique)
qed

section \<open>Lemmas: reading back what JSON.stringify writes\<close>

lemma of_char_digitChar: "d < 10 \<Longrightarrow> (of_char (digitChar d) :: nat) = 48 + d"
  by (simp add: digitChar_def)

lemma isDigit_digitChar: "d < 10 \<Longrightarrow> isDigit (digitChar d)"
  by (simp add: isDigit_def of_char_digitChar)

lemma digitVal_digitChar: "d < 10 \<Longrightarrow> digitVal (digitChar d) = d"
  by (simp add: digitVal_def of_char_digitChar)

lemma digitChar_zero: "d < 10 \<Longrightarrow> digitChar d = CHR ''0'' \<longleftrightarrow> d = 0"
proof -
  assume d: "d < 10"
  have "digitChar d = CHR ''0'' \<Longrightarrow> d = 0"
  proof -
    assume "digitChar d = CHR ''0''"
    then have "(of_char (digitChar d) :: nat) = of_char CHR ''0''" by simp
    with d show "d = 0" by (simp add: of_char_digitChar)
  qed
  moreover have "digitChar 0 = CHR ''0''" by code_simp
  ultimately show ?thesis by auto
qed

lemma showNat_digits: "c \<in> set (showNat n) \<Longrightarrow> isDigit c"
proof (induction n arbitrary: c rule: showNat.induct)
  case (1 n)
  show ?case
  proof (cases "n < 10")
    case True
    with "1.prems" show ?thesis
      by (subst (asm) showNat.simps) (simp add: isDigit_digitChar)
  next
    case False
    with "1.prems" have "c \<in> set (showNat (n div 10)) \<or> c = digitChar (n mod 10)"
      by (subst (asm) showNat.simps) auto
    then show ?thesis
    proof
      assume "c \<in> set (showNat (n div 10))"
      with False show ?thesis by (rule "1.IH")
    next
      assume "c = digitChar (n mod 10)"
      then show ?thesis by (simp add: isDigit_digitChar)
    qed
  qed
qed

lemma showNat_nonempty: "showNat n \<noteq> []"
  by (subst showNat.simps) simp

lemma readNat_snoc: "readNat (ds @ [c]) = 10 * readNat ds + digitVal c"
  by (simp add: readNat_def)

lemma readNat_showNat: "readNat (showNat n) = n"
proof (induction n rule: showNat.induct)
  case (1 n)
  show ?case
  proof (cases "n < 10")
    case True
    then show ?thesis
      by (subst showNat.simps) (simp add: readNat_def digitVal_digitChar)
  next
    case False
    with "1.IH" show ?thesis
      by (subst showNat.simps) (simp add: readNat_snoc digitVal_digitChar)
  qed
qed

lemma showNat_leading_zero: "hd (showNat n) = CHR ''0'' \<Longrightarrow> n = 0"
proof (induction n rule: showNat.induct)
  case (1 n)
  show ?case
  proof (cases "n < 10")
    case True
    with "1.prems" show ?thesis
      by (subst (asm) showNat.simps) (simp add: digitChar_zero)
  next
    case False
    with "1.prems" have "hd (showNat (n div 10)) = CHR ''0''"
      by (subst (asm) showNat.simps) (simp add: showNat_nonempty)
    with "1.IH" [OF False] have "n div 10 = 0" by simp
    with False show ?thesis by simp
  qed
qed

lemma showNat_zero: "showNat 0 = ''0''"
  by code_simp

lemma parseNumber_showNat:
  assumes "rest = [] \<or> (\<not> isDigit (hd rest) \<and> hd rest \<noteq> CHR ''.''
             \<and> hd rest \<noteq> CHR ''e'' \<and> hd rest \<noteq> CHR ''E'')"
  shows "parseNumber (showNat n @ rest) = Some (JNumber n, rest)"
proof -
  have tw: "takeWhile isDigit (showNat n @ rest) = showNat n"
    and dw: "dropWhile isDigit (showNat n @ rest) = rest"
    using assms showNat_digits [of _ n]
    by (cases rest; simp add: takeWhile_append2 dropWhile_append2)+
  have lead: "\<not> (hd (showNat n) = CHR ''0'' \<and> 1 < length (showNat n))"
    using showNat_leading_zero [of n] by (auto simp: showNat_zero)
  show ?thesis
    using assms lead
    by (auto simp: parseNumber_def Let_def tw dw showNat_nonempty readNat_showNat)
qed

lemma hexVal_hexChar: "d < 16 \<Longrightarrow> hexVal (hexChar d) = Some d"
  by (auto simp: hexVal_def hexChar_def Let_def)

lemma hexVal_zero: "hexVal CHR ''0'' = Some 0"
  by (simp add: hexVal_def)

lemma unicodeEscape_control:
  assumes "(of_char c :: nat) < 32"
  shows "unicodeEscape CHR ''0'' CHR ''0'' (hexChar (of_char c div 16)) (hexChar (of_char c mod 16))
           = Some c"
proof -
  have a: "(of_char c :: nat) div 16 < 16" using assms by simp
  have b: "(of_char c :: nat) mod 16 < 16" by simp
  have "char_of (16 * ((of_char c :: nat) div 16) + of_char c mod 16) = c" by simp
  then show ?thesis
    by (simp add: unicodeEscape_def hexVal_zero hexVal_hexChar [OF a] hexVal_hexChar [OF b])
qed

lemma parseString_escapeChar:
  "parseString (escapeChar c @ t) = map_option (apfst (Cons c)) (parseString t)"
proof (cases "(of_char c :: nat) < 32")
  case True
  show ?thesis
    using True unicodeEscape_control [OF True]
    by (simp add: escapeChar_def unescape_def)
next
  case False
  then have "c \<noteq> CHR 0x08" "c \<noteq> CHR 0x09" "c \<noteq> CHR 0x0A" "c \<noteq> CHR 0x0C" "c \<noteq> CHR 0x0D"
    by auto
  with False show ?thesis
    by (simp add: escapeChar_def unescape_def)
qed

lemma parseString_quoted:
  "parseString (concat (map escapeChar s) @ CHR 0x22 # rest) = Some (s, rest)"
  by (induction s) (simp_all add: parseString_escapeChar del: parseString.simps(2), simp)

lemma skipWs_pre:
  assumes "\<forall>c\<in>set pre. isWs c" and "\<not> isWs c"
  shows "skipWs (pre @ c # s) = c # s"
  using assms by (simp add: skipWs_def dropWhile_append2)

lemma isDigit_not_ws: "isDigit c \<Longrightarrow> \<not> isWs c"
  by (auto simp: isDigit_def isWs_def)

lemma isDigit_not_punct:
  "isDigit c \<Longrightarrow> c \<noteq> CHR ''{'' \<and> c \<noteq> CHR ''['' \<and> c \<noteq> CHR 0x22 \<and> c \<noteq> CHR '']'' \<and> c \<noteq> CHR ''}''"
  by (auto simp: isDigit_def)

lemma pv_number:
  assumes "\<forall>c\<in>set pre. isWs c" and "isDigit c"
  shows "parseValue (Suc n) (pre @ c # cs) = parseNumber (c # cs)"
  using assms isDigit_not_punct [OF assms(2)]
  by (simp add: skipWs_pre isDigit_not_ws)

lemma pv_string:
  assumes "\<forall>c\<in>set pre. isWs c"
  shows "parseValue (Suc n) (pre @ CHR 0x22 # cs) = map_option (apfst JString) (parseString cs)"
  using assms by (simp add: skipWs_pre isWs_def)

lemma pv_literal:
  assumes "\<forall>c\<in>set pre. isWs c"
  shows "parseValue (Suc n) (pre @ CHR ''t'' # cs) = parseLiteral (CHR ''t'' # cs)"
    and "parseValue (Suc n) (pre @ CHR ''f'' # cs) = parseLiteral (CHR ''f'' # cs)"
    and "parseValue (Suc n) (pre @ CHR ''n'' # cs) = parseLiteral (CHR ''n'' # cs)"
proof -
  have t: "skipWs (pre @ CHR ''t'' # cs) = CHR ''t'' # cs"
    and f: "skipWs (pre @ CHR ''f'' # cs) = CHR ''f'' # cs"
    and n: "skipWs (pre @ CHR ''n'' # cs) = CHR ''n'' # cs"
    using assms by (simp_all add: skipWs_pre isWs_def)
  show "parseValue (Suc n) (pre @ CHR ''t'' # cs) = parseLiteral (CHR ''t'' # cs)"
    by (simp add: t isDigit_def)
  show "parseValue (Suc n) (pre @ CHR ''f'' # cs) = parseLiteral (CHR ''f'' # cs)"
    by (simp add: f isDigit_def)
  show "parseValue (Suc n) (pre @ CHR ''n'' # cs) = parseLiteral (CHR ''n'' # cs)"
    by (simp add: n isDigit_def)
qed

lemma pv_array_empty:
  assumes "\<forall>c\<in>set pre. isWs c"
  shows "parseValue (Suc n) (pre @ ''[]'' @ rest) = Some (JArray [], rest)"
  using assms skipWs_pre [of "[]" "CHR '']''" rest]
  by (simp add: skipWs_pre isWs_def)

lemma pv_object_empty:
  assumes "\<forall>c\<in>set pre. isWs c"
  shows "parseValue (Suc n) (pre @ ''{}'' @ rest) = Some (JObject [], rest)"
  using assms skipWs_pre [of "[]" "CHR ''}''" rest]
  by (simp add: skipWs_pre isWs_def)

lemma pv_array:
  assumes "\<forall>c\<in>set pre. isWs c" and "\<forall>c\<in>set pre2. isWs c" and "\<not> isWs d" and "d \<noteq> CHR '']''"
  shows "parseValue (Suc n) (pre @ CHR ''['' # pre2 @ d # ds)
           = map_option (apfst JArray) (parseElements n (d # ds))"
  using assms skipWs_pre [of pre2 d ds]
  by (simp add: skipWs_pre isWs_def)

lemma pv_object:
  assumes "\<forall>c\<in>set pre. isWs c" and "\<forall>c\<in>set pre2. isWs c" and "\<not> isWs d" and "d \<noteq> CHR ''}''"
  shows "parseValue (Suc n) (pre @ CHR ''{'' # pre2 @ d # ds)
           = map_option (apfst JObject) (parseMembers n (d # ds))"
  using assms skipWs_pre [of pre2 d ds]
  by (simp add: skipWs_pre isWs_def)

lemma stringify_first:
  "\<exists>c t. stringify ind v = c # t \<and> \<not> isWs c \<and> c \<noteq> CHR '']'' \<and> c \<noteq> CHR ''}''"
proof (cases v)
  case JNull
  then show ?thesis by (simp add: isWs_def)
next
  case (JNumber k)
  obtain c t where ct: "showNat k = c # t"
    using showNat_nonempty [of k] by (cases "showNat k") auto
  have "c \<in> set (showNat k)" by (simp add: ct)
  then have d: "isDigit c" by (rule showNat_digits)
  from d have "\<not> isWs c" by (rule isDigit_not_ws)
  moreover from d have "c \<noteq> CHR '']'' \<and> c \<noteq> CHR ''}''" by (simp add: isDigit_not_punct)
  ultimately have "stringify ind v = c # t \<and> \<not> isWs c \<and> c \<noteq> CHR '']'' \<and> c \<noteq> CHR ''}''"
    by (simp add: ct JNumber)
  then show ?thesis by blast
next
  case (JBool b)
  then show ?thesis by (cases b) (simp_all add: isWs_def)
next
  case (JString str)
  then show ?thesis by (simp add: isWs_def quoteJSONString_def)
next
  case (JArray vs)
  then show ?thesis by (cases "vs = []") (simp_all add: isWs_def)
next
  case (JObject ps)
  then show ?thesis by (cases "ps = []") (simp_all add: isWs_def)
qed

declare parseValue.simps [simp del] parseElements.simps [simp del] parseMembers.simps [simp del]

lemma joinWith_cons: "ts \<noteq> [] \<Longrightarrow> joinWith sep (s # ts) = s @ sep @ joinWith sep ts"
  by (cases ts) simp_all

lemma parseElements_join:
  assumes ne: "vs \<noteq> []"
    and IH: "\<And>v m pre rest. v \<in> set vs \<Longrightarrow> \<forall>c\<in>set pre. isWs c
              \<Longrightarrow> rest = [] \<or> hd rest = CHR '','' \<or> hd rest = CHR 0x0A
              \<Longrightarrow> length (stringify ind' v) < m
              \<Longrightarrow> parseValue m (pre @ stringify ind' v @ rest) = Some (v, rest)"
    and i': "\<forall>c\<in>set ind'. c = CHR '' ''" and i: "\<forall>c\<in>set ind. c = CHR '' ''"
    and pre: "\<forall>c\<in>set pre. isWs c"
    and len: "length (joinWith (CHR '','' # CHR 0x0A # ind') (map (stringify ind') vs)) < n"
  shows "parseElements (Suc n)
           (pre @ joinWith (CHR '','' # CHR 0x0A # ind') (map (stringify ind') vs)
              @ CHR 0x0A # ind @ CHR '']'' # rest)
         = Some (vs, rest)"
  using ne IH pre len
proof (induction vs arbitrary: n pre rule: list_nonempty_induct)
  case (single v)
  let ?close = "CHR 0x0A # ind @ CHR '']'' # rest"
  have "parseValue n (pre @ stringify ind' v @ ?close) = Some (v, ?close)"
    using single.prems by (intro single.prems(1)) simp_all
  moreover have "skipWs ?close = CHR '']'' # rest"
    using skipWs_pre [of "CHR 0x0A # ind" "CHR '']''" rest] i by (simp add: isWs_def)
  ultimately show ?case
    by (simp add: parseElements.simps(2))
next
  case (cons v vs)
  let ?sep = "CHR '','' # CHR 0x0A # ind'"
  let ?close = "CHR 0x0A # ind @ CHR '']'' # rest"
  let ?J = "joinWith ?sep (map (stringify ind') vs)"
  have mapne: "map (stringify ind') vs \<noteq> []" using cons.hyps by simp
  have join: "joinWith ?sep (stringify ind' v # map (stringify ind') vs)
                = stringify ind' v @ ?sep @ ?J"
    using mapne by (rule joinWith_cons)
  from cons.prems(3) have lv: "length (stringify ind' v) < n" and lj: "Suc (length ?J) < n"
    by (simp_all add: join)
  then obtain m where n: "n = Suc m" and ljm: "length ?J < m"
    by (cases n) auto
  have first: "parseValue n (pre @ stringify ind' v @ (?sep @ ?J @ ?close)) = Some (v, ?sep @ ?J @ ?close)"
    using cons.prems(2) lv by (intro cons.prems(1)) simp_all
  have comma: "skipWs (?sep @ ?J @ ?close) = CHR '','' # (CHR 0x0A # ind') @ ?J @ ?close"
    using skipWs_pre [of "[]" "CHR '',''"] by (simp add: isWs_def)
  have pre': "\<forall>c\<in>set (CHR 0x0A # ind'). isWs c" using i' by (simp add: isWs_def)
  have tail: "parseElements (Suc m) ((CHR 0x0A # ind') @ ?J @ ?close) = Some (vs, rest)"
    using cons.prems(1) pre' ljm by (intro cons.IH) simp_all
  show ?case
    unfolding list.map join
    using first comma tail
    by (simp add: parseElements.simps(2) n)
qed

lemma skipWs_comma: "skipWs (CHR '','' # s) = CHR '','' # s"
  by (simp add: skipWs_def isWs_def)

lemma parseMembers_step:
  assumes "\<forall>c\<in>set pre. isWs c"
    and "parseValue n (CHR '' '' # text @ R) = Some (v, R)"
  shows "parseMembers (Suc n) (pre @ quoteJSONString k @ CHR '':'' # CHR '' '' # text @ R)
           = (case skipWs R of
                [] \<Rightarrow> None
              | d # ds \<Rightarrow>
                  if d = CHR '','' then map_option (apfst (Cons (k, v))) (parseMembers n ds)
                  else if d = CHR ''}'' then Some ([(k, v)], ds)
                  else None)"
proof -
  let ?X = "CHR '':'' # CHR '' '' # text @ R"
  have a: "skipWs (pre @ quoteJSONString k @ CHR '':'' # CHR '' '' # text @ R)
             = CHR 0x22 # concat (map escapeChar k) @ CHR 0x22 # ?X"
    using skipWs_pre [OF assms(1), of "CHR 0x22"]
    by (simp add: quoteJSONString_def isWs_def)
  have b: "parseString (concat (map escapeChar k) @ CHR 0x22 # ?X) = Some (k, ?X)"
    by (rule parseString_quoted)
  have c: "skipWs ?X = ?X"
    using skipWs_pre [of "[]" "CHR '':''"] by (simp add: isWs_def)
  show ?thesis
    by (simp add: parseMembers.simps(2) a b c assms(2))
qed

lemma parseMembers_join:
  assumes ne: "ps \<noteq> []"
    and IH: "\<And>p m pre rest. p \<in> set ps \<Longrightarrow> \<forall>c\<in>set pre. isWs c
              \<Longrightarrow> rest = [] \<or> hd rest = CHR '','' \<or> hd rest = CHR 0x0A
              \<Longrightarrow> length (stringify ind' (snd p)) < m
              \<Longrightarrow> parseValue m (pre @ stringify ind' (snd p) @ rest) = Some (snd p, rest)"
    and i': "\<forall>c\<in>set ind'. c = CHR '' ''" and i: "\<forall>c\<in>set ind. c = CHR '' ''"
    and pre: "\<forall>c\<in>set pre. isWs c"
    and len: "length (joinWith (CHR '','' # CHR 0x0A # ind')
                 (map (\<lambda>p. quoteJSONString (fst p) @ CHR '':'' # CHR '' '' # stringify ind' (snd p)) ps)) < n"
  shows "parseMembers (Suc n)
           (pre @ joinWith (CHR '','' # CHR 0x0A # ind')
                    (map (\<lambda>p. quoteJSONString (fst p) @ CHR '':'' # CHR '' '' # stringify ind' (snd p)) ps)
              @ CHR 0x0A # ind @ CHR ''}'' # rest)
         = Some (ps, rest)"
  using ne IH pre len
proof (induction ps arbitrary: n pre rule: list_nonempty_induct)
  case (single p)
  let ?close = "CHR 0x0A # ind @ CHR ''}'' # rest"
  have lv: "length (stringify ind' (snd p)) < n"
    using single.prems(3) by simp
  have "parseValue n ([CHR '' ''] @ stringify ind' (snd p) @ ?close) = Some (snd p, ?close)"
    using lv by (intro single.prems(1)) (simp_all add: isWs_def)
  then have pv: "parseValue n (CHR '' '' # stringify ind' (snd p) @ ?close) = Some (snd p, ?close)"
    by simp
  have close: "skipWs ?close = CHR ''}'' # rest"
    using skipWs_pre [of "CHR 0x0A # ind" "CHR ''}''" rest] i by (simp add: isWs_def)
  from parseMembers_step [OF single.prems(2) pv, of "fst p"] show ?case
    by (simp add: close)
next
  case (cons p ps)
  let ?sep = "CHR '','' # CHR 0x0A # ind'"
  let ?close = "CHR 0x0A # ind @ CHR ''}'' # rest"
  let ?f = "\<lambda>p. quoteJSONString (fst p) @ CHR '':'' # CHR '' '' # stringify ind' (snd p)"
  let ?J = "joinWith ?sep (map ?f ps)"
  have mapne: "map ?f ps \<noteq> []" using cons.hyps by simp
  have join: "joinWith ?sep (?f p # map ?f ps) = ?f p @ ?sep @ ?J"
    using mapne by (rule joinWith_cons)
  from cons.prems(3) have lv: "length (stringify ind' (snd p)) < n" and lj: "Suc (length ?J) < n"
    by (simp_all add: join)
  then obtain m where n: "n = Suc m" and ljm: "length ?J < m"
    by (cases n) auto
  let ?R = "?sep @ ?J @ ?close"
  have "parseValue n ([CHR '' ''] @ stringify ind' (snd p) @ ?R) = Some (snd p, ?R)"
    using lv by (intro cons.prems(1)) (simp_all add: isWs_def)
  then have pv: "parseValue n (CHR '' '' # stringify ind' (snd p) @ ?R) = Some (snd p, ?R)"
    by simp
  have pre': "\<forall>c\<in>set (CHR 0x0A # ind'). isWs c" using i' by (simp add: isWs_def)
  have tail: "parseMembers (Suc m) ((CHR 0x0A # ind') @ ?J @ ?close) = Some (ps, rest)"
    using cons.prems(1) pre' ljm by (intro cons.IH) simp_all
  from parseMembers_step [OF cons.prems(2) pv, of "fst p"] show ?case
    unfolding list.map join
    using tail by (simp add: skipWs_comma n)
qed

lemma joinWith_first:
  assumes "ts \<noteq> []" and "hd ts = c # t"
  shows "\<exists>t'. joinWith sep ts = c # t'"
proof (cases ts)
  case Nil
  with assms(1) show ?thesis by simp
next
  case (Cons s ss)
  with assms(2) show ?thesis by (cases ss) simp_all
qed

lemma parseLiteral_texts:
  "parseLiteral (''null'' @ rest) = Some (JNull, rest)"
  "parseLiteral (''true'' @ rest) = Some (JBool True, rest)"
  "parseLiteral (''false'' @ rest) = Some (JBool False, rest)"
  by (simp_all add: parseLiteral_def)

lemma parse_stringify:
  assumes "\<forall>c\<in>set ind. c = CHR '' ''" and "\<forall>c\<in>set pre. isWs c"
    and "rest = [] \<or> hd rest = CHR '','' \<or> hd rest = CHR 0x0A"
    and "length (stringify ind v) < n"
  shows "parseValue n (pre @ stringify ind v @ rest) = Some (v, rest)"
  using assms
proof (induction v arbitrary: n ind pre rest)
  case JNull
  then obtain m where n: "n = Suc m" by (cases n) auto
  from pv_literal(3) [OF JNull.prems(2), of m "''ull'' @ rest"] show ?case
    using parseLiteral_texts(1) [of rest] by (simp add: n)
next
  case (JNumber k)
  then obtain m where n: "n = Suc m" by (cases n) auto
  obtain c t where ct: "showNat k = c # t"
    using showNat_nonempty [of k] by (cases "showNat k") auto
  have "c \<in> set (showNat k)" by (simp add: ct)
  then have d: "isDigit c" by (rule showNat_digits)
  have e: "rest = [] \<or> (\<not> isDigit (hd rest) \<and> hd rest \<noteq> CHR ''.''
             \<and> hd rest \<noteq> CHR ''e'' \<and> hd rest \<noteq> CHR ''E'')"
    using JNumber.prems(3) by (auto simp: isDigit_def)
  have "parseValue (Suc m) (pre @ c # (t @ rest)) = parseNumber (c # (t @ rest))"
    using JNumber.prems(2) d by (rule pv_number)
  also have "c # (t @ rest) = showNat k @ rest" by (simp add: ct)
  also have "parseNumber (showNat k @ rest) = Some (JNumber k, rest)"
    using e by (rule parseNumber_showNat)
  finally show ?case by (simp add: n)
next
  case (JBool b)
  then obtain m where n: "n = Suc m" by (cases n) auto
  show ?case
  proof (cases b)
    case True
    from pv_literal(1) [OF JBool.prems(2), of m "''rue'' @ rest"] show ?thesis
      using parseLiteral_texts(2) [of rest] by (simp add: n True)
  next
    case False
    from pv_literal(2) [OF JBool.prems(2), of m "''alse'' @ rest"] show ?thesis
      using parseLiteral_texts(3) [of rest] by (simp add: n False)
  qed
next
  case (JString str)
  then obtain m where n: "n = Suc m" by (cases n) auto
  from pv_string [OF JString.prems(2), of m "concat (map escapeChar str) @ CHR 0x22 # rest"]
  show ?case
    by (simp add: n quoteJSONString_def parseString_quoted)
next
  case (JArray vs)
  then obtain m where n: "n = Suc m" by (cases n) auto
  show ?case
  proof (cases "vs = []")
    case True
    from pv_array_empty [OF JArray.prems(2), of m rest] show ?thesis
      by (simp add: n True)
  next
    case False
    let ?ind' = "ind @ ''  ''"
    let ?sep = "CHR '','' # CHR 0x0A # ?ind'"
    let ?J = "joinWith ?sep (map (stringify ?ind') vs)"
    let ?close = "CHR 0x0A # ind @ CHR '']'' # rest"
    have i': "\<forall>c\<in>set ?ind'. c = CHR '' ''" using JArray.prems(1) by simp
    have shape: "stringify ind (JArray vs) = CHR ''['' # CHR 0x0A # ?ind' @ ?J @ CHR 0x0A # ind @ '']''"
      using False by simp
    from JArray.prems(4) [unfolded shape] have "length ?J + 4 \<le> m"
      by (simp add: n)
    then obtain k where m: "m = Suc k" and lj: "length ?J < k"
      by (cases m) auto
    obtain c t where ct: "stringify ?ind' (hd vs) = c # t"
      and c: "\<not> isWs c" "c \<noteq> CHR '']''"
      using stringify_first [of ?ind' "hd vs"] by blast
    have "hd (map (stringify ?ind') vs) = c # t" using False ct by (simp add: hd_map)
    with False obtain t' where J: "?J = c # t'"
      using joinWith_first [of "map (stringify ?ind') vs" c t ?sep] by auto
    have pre2: "\<forall>c\<in>set (CHR 0x0A # ?ind'). isWs c"
      using JArray.prems(1) by (simp add: isWs_def)
    have IH: "\<And>v m pre rest. v \<in> set vs \<Longrightarrow> \<forall>c\<in>set pre. isWs c
              \<Longrightarrow> rest = [] \<or> hd rest = CHR '','' \<or> hd rest = CHR 0x0A
              \<Longrightarrow> length (stringify ?ind' v) < m
              \<Longrightarrow> parseValue m (pre @ stringify ?ind' v @ rest) = Some (v, rest)"
      using JArray.IH i' by blast
    have nopre: "\<forall>c\<in>set ([]::string). isWs c" by simp
    have "parseElements (Suc k) ([] @ ?J @ ?close) = Some (vs, rest)"
      using False IH i' JArray.prems(1) nopre lj by (rule parseElements_join)
    then have el: "parseElements m (c # t' @ ?close) = Some (vs, rest)"
      by (simp add: m J)
    have "parseValue (Suc m) (pre @ CHR ''['' # (CHR 0x0A # ?ind') @ c # (t' @ ?close))
            = map_option (apfst JArray) (parseElements m (c # (t' @ ?close)))"
      using JArray.prems(2) pre2 c by (rule pv_array)
    also have "pre @ CHR ''['' # (CHR 0x0A # ?ind') @ c # (t' @ ?close)
                 = pre @ stringify ind (JArray vs) @ rest"
      unfolding shape by (simp add: J)
    finally show ?thesis by (simp add: el n)
  qed
next
  case (JObject ps)
  then obtain m where n: "n = Suc m" by (cases n) auto
  show ?case
  proof (cases "ps = []")
    case True
    from pv_object_empty [OF JObject.prems(2), of m rest] show ?thesis
      by (simp add: n True)
  next
    case False
    let ?ind' = "ind @ ''  ''"
    let ?sep = "CHR '','' # CHR 0x0A # ?ind'"
    let ?f = "\<lambda>p. quoteJSONString (fst p) @ CHR '':'' # CHR '' '' # stringify ?ind' (snd p)"
    let ?J = "joinWith ?sep (map ?f ps)"
    let ?close = "CHR 0x0A # ind @ CHR ''}'' # rest"
    have i': "\<forall>c\<in>set ?ind'. c = CHR '' ''" using JObject.prems(1) by simp
    have shape: "stringify ind (JObject ps) = CHR ''{'' # CHR 0x0A # ?ind' @ ?J @ CHR 0x0A # ind @ ''}''"
      using False by simp
    from JObject.prems(4) [unfolded shape] have "length ?J + 4 \<le> m"
      by (simp add: n)
    then obtain k where m: "m = Suc k" and lj: "length ?J < k"
      by (cases m) auto
    have "hd (map ?f ps) = CHR 0x22 # concat (map escapeChar (fst (hd ps))) @ [CHR 0x22]
            @ CHR '':'' # CHR '' '' # stringify ?ind' (snd (hd ps))"
      using False by (simp add: hd_map quoteJSONString_def)
    with False obtain t' where J: "?J = CHR 0x22 # t'"
      using joinWith_first [of "map ?f ps" "CHR 0x22" _ ?sep] by auto
    have pre2: "\<forall>c\<in>set (CHR 0x0A # ?ind'). isWs c"
      using JObject.prems(1) by (simp add: isWs_def)
    have IH: "\<And>p m pre rest. p \<in> set ps \<Longrightarrow> \<forall>c\<in>set pre. isWs c
              \<Longrightarrow> rest = [] \<or> hd rest = CHR '','' \<or> hd rest = CHR 0x0A
              \<Longrightarrow> length (stringify ?ind' (snd p)) < m
              \<Longrightarrow> parseValue m (pre @ stringify ?ind' (snd p) @ rest) = Some (snd p, rest)"
      using JObject.IH i' Basic_BNFs.snds.intros by blast
    have nopre: "\<forall>c\<in>set ([]::string). isWs c" by simp
    have "parseMembers (Suc k) ([] @ ?J @ ?close) = Some (ps, rest)"
      using False IH i' JObject.prems(1) nopre lj by (rule parseMembers_join)
    then have el: "parseMembers m (CHR 0x22 # t' @ ?close) = Some (ps, rest)"
      by (simp add: m J)
    have "parseValue (Suc m) (pre @ CHR ''{'' # (CHR 0x0A # ?ind') @ CHR 0x22 # (t' @ ?close))
            = map_option (apfst JObject) (parseMembers m (CHR 0x22 # (t' @ ?close)))"
      using JObject.prems(2) pre2 by (rule pv_object) (simp_all add: isWs_def)
    also have "pre @ CHR ''{'' # (CHR 0x0A # ?ind') @ CHR 0x22 # (t' @ ?close)
                 = pre @ stringify ind (JObject ps) @ rest"
      unfolding shape by (simp add: J)
    finally show ?thesis by (simp add: el n)
  qed
qed

lemma JSON_roundtrip: "JSON_parse (JSON_stringify v) = Some v"
proof -
  have "parseValue (Suc (length (stringify [] v))) ([] @ stringify [] v @ []) = Some (v, [])"
    by (rule parse_stringify) simp_all
  then show ?thesis
    by (simp add: JSON_parse_def JSON_stringify_def skipWs_def)
qed

section \<open>Lemmas: the manifest\<close>

lemma allEntries_tiles:
  "allEntries (map (\<lambda>t. JObject [(''id'', JNumber (tile_id t)), (''collision'', JBool (isSolid t))]) ts)
     = Some (map (\<lambda>t. (tile_id t, isSolid t)) ts)"
  by (induction ts) (simp_all add: tileEntry_def property_def)

lemma property_tiles:
  "property ''tiles'' (jsonOutput env ts m w h tds)
     = Some (JArray (map (\<lambda>t. JObject [(''id'', JNumber (tile_id t)),
                                          (''collision'', JBool (isSolid t))]) tds))"
  by (simp add: property_def jsonOutput_def)

lemma manifestTiles_jsonOutput:
  "manifestTiles (jsonOutput env ts m w h tds) = Some (map (\<lambda>t. (tile_id t, isSolid t)) tds)"
  by (simp add: manifestTiles_def property_tiles allEntries_tiles)

lemma processImage_json:
  assumes "processImage env src opts = Some (Inr r)"
  shows "jsonContent r = JSON_stringify (jsonOutput env (opt_tileSize opts) (opt_mode opts)
           (width r) (height r) (tiles r))"
  using assms
  by (auto simp: processImage_def Let_def split_beta split: if_splits)

section \<open>Lemmas: opaque cells\<close>

lemma cell_region_pixels:
  assumes "validCell src ts c"
  shows "regionPixels src (snd c * ts) (fst c * ts) ts ts
           = concat (map (\<lambda>j. map (\<lambda>i. cellPixel src ts c i j) [0..<ts]) [0..<ts])"
proof -
  have inx: "\<And>i. i < ts \<Longrightarrow> snd c * ts + i < bwidth src"
    and iny: "\<And>j. j < ts \<Longrightarrow> fst c * ts + j < bheight src"
    using assms by (auto simp: validCell_def intro: cell_in_bounds)
  show ?thesis
    unfolding regionPixels_def
    by (intro arg_cong [where f = concat] map_cong refl) (simp add: cellPixel_def inx iny)
qed

lemma rendered_opaque:
  assumes "validCell src ts c" and "\<forall>i<ts. \<forall>j<ts. alpha (cellPixel src ts c i j) = 255"
  shows "renderedBytes src ts c = cellBytes src ts c"
proof -
  have "map (\<lambda>p. unpremultiply (premultiply p))
          (concat (map (\<lambda>j. map (\<lambda>i. cellPixel src ts c i j) [0..<ts]) [0..<ts]))
        = concat (map (\<lambda>j. map (\<lambda>i. cellPixel src ts c i j) [0..<ts]) [0..<ts])"
    unfolding map_concat map_map
    by (intro arg_cong [where f = concat] map_cong refl) (simp add: assms(2) opaque_exact)
  then show ?thesis
    by (simp only: rendered_pixels [OF assms(1)] cellBytes_pixels cell_region_pixels [OF assms(1)])
qed

section \<open>Lemmas: the fingerprint the scan computes\<close>

lemma tileHashOf_cell:
  assumes "scratchCanvas ts temp" and "validCell src ts c"
  shows "tileHashOf env src ts temp c = cellHash env src ts c"
proof -
  obtain y x where c: "c = (y, x)" by (cases c) auto
  show ?thesis
    using assms scratch_holds_cell [of ts temp src y x "blend env"]
    by (simp add: tileHashOf_def c cellHash_def)
qed

lemma optimizedCell_hash:
  "map snd (uniqueTilesList (optimizedCell env src ts y x st))
     = map snd (uniqueTilesList st)
       @ (if \<not> Map_has (uniqueTilesMap st) (tileHashOf env src ts (tempCanvas st) (y, x))
          then [tileHashOf env src ts (tempCanvas st) (y, x)] else [])"
  by (simp add: optimizedCell_def tileHashOf_def Let_def)

lemma distinct_finer:
  assumes "distinct (map f xs)" and "\<And>x y. x \<in> set xs \<Longrightarrow> y \<in> set xs \<Longrightarrow> g x = g y \<Longrightarrow> f x = f y"
  shows "distinct (map g xs)"
proof -
  from assms(1) have d: "distinct xs" and i: "inj_on f (set xs)" by (simp_all add: distinct_map)
  have "inj_on g (set xs)"
  proof (rule inj_onI)
    fix x y assume "x \<in> set xs" and "y \<in> set xs" and "g x = g y"
    with assms(2) have "f x = f y" by blast
    with i \<open>x \<in> set xs\<close> \<open>y \<in> set xs\<close> show "x = y" by (metis inj_onD)
  qed
  with d show ?thesis by (simp add: distinct_map)
qed

lemma distinct_hashes_bytes:
  assumes "distinct (map (cellHash env src ts) cs)" and "\<forall>c\<in>set cs. validCell src ts c"
  shows "distinct (map (cellBytes src ts) cs)"
  using assms(1)
proof (rule distinct_finer)
  fix x y assume "x \<in> set cs" and "y \<in> set cs" and "cellBytes src ts x = cellBytes src ts y"
  with assms(2) show "cellHash env src ts x = cellHash env src ts y"
    by (intro same_bytes_hash) auto
qed

section \<open>Lemmas: the runs of the examples\<close>

lemma strip480_result:
  "\<exists>r. processImage demoBrowser strip480 optimized48 = Some (Inr r)
       \<and> totalTiles r = 10 \<and> uniqueTiles r = 10"
proof -
  have o: "opt_mode optimized48 = Optimized" "0 < opt_tileSize optimized48"
    "0 < effectiveColumns optimized48"
    "(bwidth strip480 div opt_tileSize optimized48)
       * (bheight strip480 div opt_tileSize optimized48) \<noteq> 0"
    "tempContext demoBrowser" "resultContext demoBrowser"
    by (simp_all add: optimized48_def effectiveColumns_def strip480_def demoBrowser_def)
  have "uniqueCells demoBrowser strip480 48 = gridCells 10 1"
    using firstSeen_distinct [OF strip480_hashes] by (simp add: uniqueCells_def strip480_def)
  then have "length (uniqueCells demoBrowser strip480 48) = 10"
    by (simp add: length_gridCells)
  with processImage_optimized [OF o] show ?thesis
    by (auto simp: optimized48_def strip480_def [THEN arg_cong, of bwidth]
          strip480_def [THEN arg_cong, of bheight])
qed

lemma motif_result:
  assumes "encodePNG env = encodePNG demoBrowser" and "tempContext env" and "resultContext env"
  shows "\<exists>r. processImage env motif192 optimized48 = Some (Inr r)
       \<and> totalTiles r = 4 \<and> uniqueTiles r = 3"
proof -
  have o: "opt_mode optimized48 = Optimized" "0 < opt_tileSize optimized48"
    "0 < effectiveColumns optimized48"
    "(bwidth motif192 div opt_tileSize optimized48)
       * (bheight motif192 div opt_tileSize optimized48) \<noteq> 0"
    by (simp_all add: optimized48_def effectiveColumns_def motif192_def)
  have "uniqueCells env motif192 48 = [(0, 0), (0, 1), (0, 3)]"
    using uniqueCells_encoder [OF assms(1), of motif192 48] by (simp only: motif_unique)
  then have "length (uniqueCells env motif192 48) = 3" by simp
  with processImage_optimized [OF o assms(2) assms(3)] show ?thesis
    by (auto simp: optimized48_def motif192_def [THEN arg_cong, of bwidth]
          motif192_def [THEN arg_cong, of bheight])
qed

section \<open>The classifier\<close>

text \<open>
  C5. On a readable buffer of \<open>sz \<times> sz\<close> pixels the classifier returns whether the number
  of pixels with alpha above 10, divided by \<open>sz\<^sup>2\<close>, exceeds 0.75; a fully opaque buffer is
  solid, a fully transparent one is not; when the buffer cannot be read the result is
  false.
\<close>

theorem detectCollision_ratio:
  "(0 < sz \<and> length pxs = sz * sz
      \<and> getImageData ctx 0 0 sz sz = Some (concat (map pixelBytes pxs))
     \<longrightarrow> (detectCollision ctx sz
            \<longleftrightarrow> real (length (filter (\<lambda>p. alpha p > 10) pxs)) / real (sz * sz) > 0.75)
         \<and> ((\<forall>p\<in>set pxs. alpha p = 255) \<longrightarrow> detectCollision ctx sz)
         \<and> ((\<forall>p\<in>set pxs. alpha p = 0) \<longrightarrow> \<not> detectCollision ctx sz))
   \<and> (getImageData ctx 0 0 sz sz = None \<longrightarrow> \<not> detectCollision ctx sz)"
proof (intro conjI impI)
  assume a: "0 < sz \<and> length pxs = sz * sz
      \<and> getImageData ctx 0 0 sz sz = Some (concat (map pixelBytes pxs))"
  then have eq: "detectCollision ctx sz
            \<longleftrightarrow> real (length (filter (\<lambda>p. alpha p > 10) pxs)) / real (sz * sz) > 0.75"
    by (simp add: detectCollision_def countSolid_pixels ratioAbove_def)
  then show "detectCollision ctx sz
            \<longleftrightarrow> real (length (filter (\<lambda>p. alpha p > 10) pxs)) / real (sz * sz) > 0.75" .
  {
    assume "\<forall>p\<in>set pxs. alpha p = 255"
    then have "filter (\<lambda>p. alpha p > 10) pxs = pxs" by (simp add: filter_id_conv)
    with a eq show "detectCollision ctx sz" by simp
  }
  {
    assume "\<forall>p\<in>set pxs. alpha p = 0"
    then have "filter (\<lambda>p. alpha p > 10) pxs = []" by (simp add: filter_empty_conv)
    with eq show "\<not> detectCollision ctx sz" by simp
  }
next
  assume "getImageData ctx 0 0 sz sz = None"
  then show "\<not> detectCollision ctx sz" by (simp add: detectCollision_def)
qed

theorem detectCollision_ratio_witness:
  "detectCollision (getContext opaque2) 2
   \<and> \<not> detectCollision (getContext clear2) 2
   \<and> \<not> detectCollision unreadable 2"
proof -
  have two: "[0..<2] = [0, 1]" by (simp add: upt_conv_Cons numeral_eq_Suc)
  have four: "replicate 4 p = [p, p, p, p]" for p :: pixel by (simp add: numeral_eq_Suc)
  have o: "getImageData (getContext opaque2) 0 0 2 2
             = Some (concat (map pixelBytes (replicate 4 (10, 20, 30, 255))))"
    unfolding four
    by (simp add: getContext_def regionBytes_def regionPixels_def straight_def opaque2_def
          unscaleByAlpha_opaque two)
  have c: "getImageData (getContext clear2) 0 0 2 2
             = Some (concat (map pixelBytes (replicate 4 (0, 0, 0, 0))))"
    unfolding four
    by (simp add: getContext_def regionBytes_def regionPixels_def straight_def clear2_def
          transparent_def two)
  have u: "getImageData unreadable 0 0 2 2 = None"
    by (simp add: unreadable_def)
  show ?thesis
    using detectCollision_ratio [of 2 "replicate 4 (10, 20, 30, 255)" "getContext opaque2"]
      detectCollision_ratio [of 2 "replicate 4 (0, 0, 0, 0)" "getContext clear2"]
      detectCollision_ratio [of 2 "[]" unreadable] o c u
    by simp
qed

section \<open>Original mode\<close>

text \<open>
  C7. In Original mode the tile of the cell in row \<open>row\<close> and column \<open>col\<close> stands at index
  \<open>row * cols + col\<close> of the tile list, has that index as its id and the pixel origin
  \<open>(col * tileSize, row * tileSize)\<close>, and carries the collision flag of that cell; the
  output is \<open>cols * tileSize\<close> wide and \<open>rows * tileSize\<close> high, and \<open>uniqueTiles\<close> equals
  \<open>totalTiles\<close>. The output image is the canvas on which the source, cropped to the grid,
  is drawn: what is read from it at the origin of a tile is what is read from a canvas
  on which the cell is drawn alone, and these are the bytes of the cell when the cell is
  opaque.
\<close>

theorem original_layout:
  assumes "processImage env src opts = Some (Inr r)" and "opt_mode opts = Original"
  shows "(\<forall>row < bheight src div opt_tileSize opts. \<forall>col < bwidth src div opt_tileSize opts.
            tiles r ! (row * (bwidth src div opt_tileSize opts) + col)
              = \<lparr>tile_id = row * (bwidth src div opt_tileSize opts) + col,
                 tile_x = Finite (col * opt_tileSize opts),
                 tile_y = Finite (row * opt_tileSize opts),
                 isSolid = bufferSolid (opt_tileSize opts)
                             (cellBytes src (opt_tileSize opts) (row, col))\<rparr>)
       \<and> length (tiles r) = (bheight src div opt_tileSize opts) * (bwidth src div opt_tileSize opts)
       \<and> width r = (bwidth src div opt_tileSize opts) * opt_tileSize opts
       \<and> height r = (bheight src div opt_tileSize opts) * opt_tileSize opts
       \<and> uniqueTiles r = totalTiles r
       \<and> totalTiles r = (bwidth src div opt_tileSize opts) * (bheight src div opt_tileSize opts)
       \<and> dataUrl r = toDataURL env (croppedSource src (opt_tileSize opts))
       \<and> (\<forall>row < bheight src div opt_tileSize opts. \<forall>col < bwidth src div opt_tileSize opts.
            regionBytes (straight (croppedSource src (opt_tileSize opts)))
              (col * opt_tileSize opts) (row * opt_tileSize opts)
              (opt_tileSize opts) (opt_tileSize opts)
            = renderedBytes src (opt_tileSize opts) (row, col)
            \<and> ((\<forall>i < opt_tileSize opts. \<forall>j < opt_tileSize opts.
                   alpha (cellPixel src (opt_tileSize opts) (row, col) i j) = 255)
                \<longrightarrow> renderedBytes src (opt_tileSize opts) (row, col)
                      = cellBytes src (opt_tileSize opts) (row, col)))"
proof -
  let ?ts = "opt_tileSize opts"
  let ?cols = "bwidth src div ?ts"
  let ?rows = "bheight src div ?ts"
  note pre = processImage_Inr_D [OF assms(1)]
  from processImage_original [OF assms(2) pre(1) pre(2) pre(3) pre(4)] assms(1)
  have r: "tiles r = map (originalTile src ?ts ?cols) (gridCells ?cols ?rows)"
    "width r = ?cols * ?ts" "height r = ?rows * ?ts" "uniqueTiles r = totalTiles r"
    "totalTiles r = ?cols * ?rows"
    by auto
  have len: "length (tiles r) = ?rows * ?cols"
    by (simp add: r(1) length_gridCells)
  have "tiles r ! (row * ?cols + col)
          = \<lparr>tile_id = row * ?cols + col, tile_x = Finite (col * ?ts),
             tile_y = Finite (row * ?ts),
             isSolid = bufferSolid ?ts (cellBytes src ?ts (row, col))\<rparr>"
    if "row < ?rows" and "col < ?cols" for row col
  proof -
    have "row * ?cols + col < (row + 1) * ?cols" using that(2) by simp
    also have "\<dots> \<le> ?rows * ?cols" using that(1) by (intro mult_le_mono1) simp
    finally have "row * ?cols + col < length (gridCells ?cols ?rows)"
      by (simp add: length_gridCells)
    then show ?thesis
      by (simp add: r(1) gridCells_nth [OF that] originalTile_def)
  qed
  moreover have "dataUrl r = toDataURL env (croppedSource src ?ts)"
    using assms by (rule processImage_original_dataUrl)
  moreover have "regionBytes (straight (croppedSource src ?ts)) (col * ?ts) (row * ?ts) ?ts ?ts
                   = renderedBytes src ?ts (row, col)
                 \<and> ((\<forall>i < ?ts. \<forall>j < ?ts. alpha (cellPixel src ?ts (row, col) i j) = 255)
                    \<longrightarrow> renderedBytes src ?ts (row, col) = cellBytes src ?ts (row, col))"
    if "row < ?rows" and "col < ?cols" for row col
  proof -
    have v: "validCell src ?ts (row, col)" using that by (simp add: validCell_def)
    from croppedSource_cell [OF v] rendered_opaque [OF v] show ?thesis by blast
  qed
  ultimately show ?thesis using len r by simp
qed

theorem original_layout_witness:
  "\<exists>r. processImage demoBrowser source96 scenarioA = Some (Inr r)
       \<and> totalTiles r = 4 \<and> uniqueTiles r = 4 \<and> width r = 96 \<and> height r = 96
       \<and> length (tiles r) = 4
       \<and> tile_id (tiles r ! 0) = 0 \<and> tile_x (tiles r ! 0) = Finite 0
       \<and> tile_y (tiles r ! 0) = Finite 0
       \<and> tile_id (tiles r ! 1) = 1 \<and> tile_x (tiles r ! 1) = Finite 48
       \<and> tile_y (tiles r ! 1) = Finite 0
       \<and> tile_id (tiles r ! 2) = 2 \<and> tile_x (tiles r ! 2) = Finite 0
       \<and> tile_y (tiles r ! 2) = Finite 48
       \<and> tile_id (tiles r ! 3) = 3 \<and> tile_x (tiles r ! 3) = Finite 48
       \<and> tile_y (tiles r ! 3) = Finite 48
       \<and> regionBytes (straight (croppedSource source96 48)) 0 48 48 48
            = cellBytes source96 48 (1, 0)"
proof -
  have m: "opt_mode scenarioA = Original" by (simp add: scenarioA_def)
  have "\<exists>r. processImage demoBrowser source96 scenarioA = Some (Inr r)"
    by (rule processImage_succeeds) (simp_all add: scenarioA_def source96_def demoBrowser_def)
  then obtain r where r: "processImage demoBrowser source96 scenarioA = Some (Inr r)" ..
  from original_layout [OF r m]
  have cell: "\<And>row col. row < 2 \<Longrightarrow> col < 2 \<Longrightarrow>
            tiles r ! (row * 2 + col)
              = \<lparr>tile_id = row * 2 + col, tile_x = Finite (col * 48), tile_y = Finite (row * 48),
                 isSolid = bufferSolid 48 (cellBytes source96 48 (row, col))\<rparr>"
    and rest: "length (tiles r) = 4" "width r = 96" "height r = 96"
      "uniqueTiles r = 4" "totalTiles r = 4"
    and img: "\<And>row col. row < 2 \<Longrightarrow> col < 2 \<Longrightarrow>
            regionBytes (straight (croppedSource source96 48)) (col * 48) (row * 48) 48 48
              = renderedBytes source96 48 (row, col)
            \<and> ((\<forall>i < 48. \<forall>j < 48. alpha (cellPixel source96 48 (row, col) i j) = 255)
                \<longrightarrow> renderedBytes source96 48 (row, col) = cellBytes source96 48 (row, col))"
    by (simp_all add: scenarioA_def source96_def)
  from cell [of 0 0] cell [of 0 1] cell [of 1 0] cell [of 1 1]
  have t: "tile_id (tiles r ! 0) = 0 \<and> tile_x (tiles r ! 0) = Finite 0
       \<and> tile_y (tiles r ! 0) = Finite 0
       \<and> tile_id (tiles r ! 1) = 1 \<and> tile_x (tiles r ! 1) = Finite 48
       \<and> tile_y (tiles r ! 1) = Finite 0
       \<and> tile_id (tiles r ! 2) = 2 \<and> tile_x (tiles r ! 2) = Finite 0
       \<and> tile_y (tiles r ! 2) = Finite 48
       \<and> tile_id (tiles r ! 3) = 3 \<and> tile_x (tiles r ! 3) = Finite 48
       \<and> tile_y (tiles r ! 3) = Finite 48"
    by simp
  have "\<forall>i < 48. \<forall>j < 48. alpha (cellPixel source96 48 (1, 0) i j) = 255"
    by (simp add: cellPixel_def source96_def)
  with img [of 1 0]
  have "regionBytes (straight (croppedSource source96 48)) 0 48 48 48
          = cellBytes source96 48 (1, 0)"
    by simp
  with r rest t show ?thesis by (intro exI [of _ r]) simp
qed

section \<open>The grid and the failures\<close>

text \<open>
  C4, as amended. For a positive tile size: when the grid has at least one column and one
  row and both canvas contexts are obtained, \<open>processImage\<close> returns a result whose
  \<open>totalTiles\<close> is \<open>floor (width / tileSize) * floor (height / tileSize)\<close>; when that
  product is zero it throws InvalidDimensions and returns no result; when the grid is not
  empty and the scratch canvas yields no context it throws the error of the scratch
  canvas, and when only the result canvas yields none it throws the error of the result
  canvas.
\<close>

theorem grid_outcome:
  assumes "0 < opt_tileSize opts"
  shows "(1 \<le> bwidth src div opt_tileSize opts \<and> 1 \<le> bheight src div opt_tileSize opts
            \<and> tempContext env \<and> resultContext env
          \<longrightarrow> (\<exists>r. processImage env src opts = Some (Inr r)
                 \<and> totalTiles r = (bwidth src div opt_tileSize opts)
                                   * (bheight src div opt_tileSize opts)))
       \<and> ((bwidth src div opt_tileSize opts) * (bheight src div opt_tileSize opts) = 0
          \<longrightarrow> processImage env src opts = Some (Inl InvalidDimensions))
       \<and> (1 \<le> bwidth src div opt_tileSize opts \<and> 1 \<le> bheight src div opt_tileSize opts
            \<and> \<not> tempContext env
          \<longrightarrow> processImage env src opts = Some (Inl TempContextUnavailable))
       \<and> (1 \<le> bwidth src div opt_tileSize opts \<and> 1 \<le> bheight src div opt_tileSize opts
            \<and> tempContext env \<and> \<not> resultContext env
          \<longrightarrow> processImage env src opts = Some (Inl ResultContextUnavailable))"
proof (intro conjI impI)
  assume a: "1 \<le> bwidth src div opt_tileSize opts \<and> 1 \<le> bheight src div opt_tileSize opts
            \<and> tempContext env \<and> resultContext env"
  then have nz: "(bwidth src div opt_tileSize opts) * (bheight src div opt_tileSize opts) \<noteq> 0"
    by simp
  show "\<exists>r. processImage env src opts = Some (Inr r)
          \<and> totalTiles r = (bwidth src div opt_tileSize opts) * (bheight src div opt_tileSize opts)"
  proof (cases "opt_mode opts")
    case Original
    from processImage_original [OF this assms nz] a show ?thesis by force
  next
    case Optimized
    from processImage_optimized_any [OF this assms nz] a show ?thesis by force
  qed
next
  assume "(bwidth src div opt_tileSize opts) * (bheight src div opt_tileSize opts) = 0"
  with assms show "processImage env src opts = Some (Inl InvalidDimensions)"
    by (rule processImage_invalid)
next
  assume a: "1 \<le> bwidth src div opt_tileSize opts \<and> 1 \<le> bheight src div opt_tileSize opts
            \<and> \<not> tempContext env"
  then have nz: "(bwidth src div opt_tileSize opts) * (bheight src div opt_tileSize opts) \<noteq> 0"
    by simp
  from processImage_no_context(1) [OF assms nz, of env] a
  show "processImage env src opts = Some (Inl TempContextUnavailable)" by blast
next
  assume a: "1 \<le> bwidth src div opt_tileSize opts \<and> 1 \<le> bheight src div opt_tileSize opts
            \<and> tempContext env \<and> \<not> resultContext env"
  then have nz: "(bwidth src div opt_tileSize opts) * (bheight src div opt_tileSize opts) \<noteq> 0"
    by simp
  from processImage_no_context(2) [OF assms nz, of env] a
  show "processImage env src opts = Some (Inl ResultContextUnavailable)" by blast
qed

theorem grid_outcome_witness:
  "(\<exists>r. processImage demoBrowser source96 scenarioA = Some (Inr r) \<and> totalTiles r = 4)
   \<and> (\<exists>r. processImage demoBrowser twin96 zeroColumns48 = Some (Inr r) \<and> totalTiles r = 2)
   \<and> processImage demoBrowser source40 scenarioA = Some (Inl InvalidDimensions)
   \<and> processImage noContextBrowser source96 scenarioA = Some (Inl TempContextUnavailable)
   \<and> processImage noResultContextBrowser source96 scenarioA
       = Some (Inl ResultContextUnavailable)"
proof -
  have ts: "0 < opt_tileSize scenarioA" by (simp add: scenarioA_def)
  have tz: "0 < opt_tileSize zeroColumns48" by (simp add: zeroColumns48_def)
  from grid_outcome [OF ts, of source96 demoBrowser]
  have "\<exists>r. processImage demoBrowser source96 scenarioA = Some (Inr r) \<and> totalTiles r = 4"
    by (simp add: scenarioA_def source96_def demoBrowser_def)
  moreover from grid_outcome [OF tz, of twin96 demoBrowser]
  have "\<exists>r. processImage demoBrowser twin96 zeroColumns48 = Some (Inr r) \<and> totalTiles r = 2"
    by (simp add: zeroColumns48_def twin96_def demoBrowser_def)
  moreover from grid_outcome [OF ts, of source40 demoBrowser]
  have "processImage demoBrowser source40 scenarioA = Some (Inl InvalidDimensions)"
    by (simp add: scenarioA_def source40_def)
  moreover from grid_outcome [OF ts, of source96 noContextBrowser]
  have "processImage noContextBrowser source96 scenarioA = Some (Inl TempContextUnavailable)"
    by (simp add: scenarioA_def source96_def noContextBrowser_def)
  moreover from grid_outcome [OF ts, of source96 noResultContextBrowser]
  have "processImage noResultContextBrowser source96 scenarioA
          = Some (Inl ResultContextUnavailable)"
    by (simp add: scenarioA_def source96_def noResultContextBrowser_def demoBrowser_def)
  ultimately show ?thesis by blast
qed

theorem grid_success_counterexample:
  "0 < opt_tileSize scenarioA
   \<and> 1 \<le> bwidth source96 div opt_tileSize scenarioA
   \<and> 1 \<le> bheight source96 div opt_tileSize scenarioA
   \<and> processImage noContextBrowser source96 scenarioA = Some (Inl TempContextUnavailable)"
proof -
  have "processImage noContextBrowser source96 scenarioA = Some (Inl TempContextUnavailable)"
    by (rule processImage_no_context(1))
       (simp_all add: scenarioA_def source96_def noContextBrowser_def)
  then show ?thesis by (simp add: scenarioA_def source96_def)
qed

section \<open>Optimized mode: Scenario B\<close>

text \<open>
  C2, as amended. For a 96 by 48 source whose two 48 by 48 halves are pixel-identical,
  with tile size 48, Optimized mode and 8 columns, and both canvas contexts obtained,
  \<open>processImage\<close> returns \<open>totalTiles = 2\<close>, \<open>uniqueTiles = 1\<close>, an output of width 384
  (8 columns of 48) and height 48, and a tile list of the single tile with id 0.
\<close>

theorem scenarioB_result:
  assumes "bwidth src = 96" and "bheight src = 48"
    and "\<forall>i<48. \<forall>j<48. pixelAt src (48 + i) j = pixelAt src i j"
    and "opt_tileSize opts = 48" and "opt_mode opts = Optimized"
    and "effectiveColumns opts = 8"
    and "tempContext env" and "resultContext env"
  shows "\<exists>r. processImage env src opts = Some (Inr r)
           \<and> totalTiles r = 2 \<and> uniqueTiles r = 1 \<and> width r = 384 \<and> height r = 48
           \<and> length (tiles r) = 1 \<and> tile_id (tiles r ! 0) = 0"
  using twin_halves_result [OF assms] by force

theorem scenarioB_result_witness:
  "\<exists>r. processImage demoBrowser twin96 optimized48 = Some (Inr r)
       \<and> totalTiles r = 2 \<and> uniqueTiles r = 1 \<and> width r = 384 \<and> height r = 48
       \<and> length (tiles r) = 1 \<and> tile_id (tiles r ! 0) = 0"
  by (rule scenarioB_result)
     (simp_all add: twin96_def optimized48_def demoBrowser_def effectiveColumns_def)

theorem scenarioB_width_counterexample:
  "\<not> (\<exists>r. processImage demoBrowser twin96 optimized48 = Some (Inr r)
          \<and> totalTiles r = 2 \<and> uniqueTiles r = 1 \<and> width r = 48 \<and> height r = 48
          \<and> length (tiles r) = 1 \<and> tile_id (tiles r ! 0) = 0)"
proof -
  have "\<exists>r. processImage demoBrowser twin96 optimized48 = Some (Inr r) \<and> width r = 384"
    using twin_halves_result [of twin96 optimized48 demoBrowser]
    by (force simp: twin96_def optimized48_def demoBrowser_def effectiveColumns_def)
  then show ?thesis by force
qed

section \<open>The ids of the tile list\<close>

text \<open>
  C10. A returned tile list has \<open>totalTiles\<close> entries in Original mode and
  \<open>uniqueTiles\<close> entries in Optimized mode, and in both modes the entry at index \<open>k\<close>
  has the id \<open>k\<close>: the ids are \<open>0, 1, 2, ...\<close> in list order.
\<close>

theorem tile_ids_contiguous:
  assumes "processImage env src opts = Some (Inr r)"
  shows "(opt_mode opts = Original \<longrightarrow> length (tiles r) = totalTiles r)
       \<and> (opt_mode opts = Optimized \<longrightarrow> length (tiles r) = uniqueTiles r)
       \<and> (\<forall>k < length (tiles r). tile_id (tiles r ! k) = k)
       \<and> map tile_id (tiles r) = [0..<length (tiles r)]"
proof -
  let ?ts = "opt_tileSize opts"
  note pre = processImage_Inr_D [OF assms]
  have "((opt_mode opts = Original \<longrightarrow> length (tiles r) = totalTiles r)
       \<and> (opt_mode opts = Optimized \<longrightarrow> length (tiles r) = uniqueTiles r))
       \<and> map tile_id (tiles r) = [0..<length (tiles r)]"
  proof (cases "opt_mode opts")
    case Original
    from processImage_original [OF Original pre(1) pre(2) pre(3) pre(4)] assms
    have t: "tiles r = map (originalTile src ?ts (bwidth src div ?ts))
                         (gridCells (bwidth src div ?ts) (bheight src div ?ts))"
      and n: "totalTiles r = (bwidth src div ?ts) * (bheight src div ?ts)"
      by auto
    have "length (tiles r) = totalTiles r"
      by (simp add: t n length_gridCells mult.commute)
    moreover have "map tile_id (tiles r) = [0..<length (tiles r)]"
      unfolding t originalTile_ids by (simp add: length_gridCells)
    ultimately show ?thesis using Original by simp
  next
    case Optimized
    from processImage_optimized_any [OF Optimized pre(1) pre(2) pre(3) pre(4)] assms
    have t: "tiles r = map (optimizedTile env src ?ts (effectiveColumns opts))
                         (enumerate 0 (uniqueCells env src ?ts))"
      and n: "uniqueTiles r = length (uniqueCells env src ?ts)"
      by auto
    have "length (tiles r) = uniqueTiles r" by (simp add: t n)
    moreover have "map tile_id (tiles r) = [0..<length (tiles r)]"
      unfolding t optimizedTile_ids by simp
    ultimately show ?thesis using Optimized by simp
  qed
  moreover have "\<forall>k < length (tiles r). tile_id (tiles r ! k) = k"
    if "map tile_id (tiles r) = [0..<length (tiles r)]"
  proof (intro allI impI)
    fix k assume k: "k < length (tiles r)"
    then have "tile_id (tiles r ! k) = map tile_id (tiles r) ! k" by simp
    also have "\<dots> = [0..<length (tiles r)] ! k" by (simp only: that)
    also have "\<dots> = k" using k by simp
    finally show "tile_id (tiles r ! k) = k" .
  qed
  ultimately show ?thesis by blast
qed

theorem tile_ids_contiguous_witness:
  "(\<exists>r. processImage demoBrowser source96 scenarioA = Some (Inr r)
        \<and> length (tiles r) = 4 \<and> totalTiles r = 4 \<and> tile_id (tiles r ! 3) = 3)
   \<and> (\<exists>r. processImage demoBrowser twin96 optimized48 = Some (Inr r)
        \<and> length (tiles r) = 1 \<and> uniqueTiles r = 1 \<and> tile_id (tiles r ! 0) = 0)"
proof -
  have "\<exists>r. processImage demoBrowser source96 scenarioA = Some (Inr r) \<and> totalTiles r = 4"
    using processImage_original [of scenarioA source96 demoBrowser]
    by (force simp: scenarioA_def source96_def demoBrowser_def)
  then obtain r where r: "processImage demoBrowser source96 scenarioA = Some (Inr r)"
    and t: "totalTiles r = 4" by blast
  from tile_ids_contiguous [OF r] t
  have a: "length (tiles r) = 4 \<and> totalTiles r = 4 \<and> tile_id (tiles r ! 3) = 3"
    by (simp add: scenarioA_def)
  have "\<exists>r. processImage demoBrowser twin96 optimized48 = Some (Inr r) \<and> uniqueTiles r = 1"
    using twin_halves_result [of twin96 optimized48 demoBrowser]
    by (force simp: twin96_def optimized48_def demoBrowser_def effectiveColumns_def)
  then obtain q where q: "processImage demoBrowser twin96 optimized48 = Some (Inr q)"
    and u: "uniqueTiles q = 1" by blast
  from tile_ids_contiguous [OF q] u
  have b: "length (tiles q) = 1 \<and> uniqueTiles q = 1 \<and> tile_id (tiles q ! 0) = 0"
    by (simp add: optimized48_def)
  from r a q b show ?thesis by blast
qed

section \<open>Optimized mode: discovery order\<close>

text \<open>
  C3, as amended. In Optimized mode the cells are scanned in row-major order; the tiles
  of the result are the cells whose fingerprint occurs for the first time, in the order
  of the scan, the k-th of them with the id \<open>k\<close>; a cell whose fingerprint was seen before
  adds to \<open>totalTiles\<close> only. So \<open>uniqueTiles\<close> is the number of distinct fingerprints
  and is at most \<open>totalTiles\<close>, with equality exactly when no two cells have the same
  fingerprint. Byte-identical cells have the same fingerprint, so that equality implies
  that no two cells are byte-identical.
\<close>

theorem optimized_discovery:
  assumes "processImage env src opts = Some (Inr r)" and "opt_mode opts = Optimized"
  shows "tiles r = map (optimizedTile env src (opt_tileSize opts) (effectiveColumns opts))
                     (enumerate 0 (firstSeen (cellHash env src (opt_tileSize opts))
                        (gridCells (bwidth src div opt_tileSize opts)
                                   (bheight src div opt_tileSize opts))))
       \<and> map tile_id (tiles r) = [0..<uniqueTiles r]
       \<and> totalTiles r = length (gridCells (bwidth src div opt_tileSize opts)
                                   (bheight src div opt_tileSize opts))
       \<and> uniqueTiles r = card (cellHash env src (opt_tileSize opts)
                                 ` set (gridCells (bwidth src div opt_tileSize opts)
                                         (bheight src div opt_tileSize opts)))
       \<and> uniqueTiles r \<le> totalTiles r
       \<and> (uniqueTiles r = totalTiles r
            \<longleftrightarrow> distinct (map (cellHash env src (opt_tileSize opts))
                  (gridCells (bwidth src div opt_tileSize opts)
                             (bheight src div opt_tileSize opts))))
       \<and> (uniqueTiles r = totalTiles r
            \<longrightarrow> distinct (map (cellBytes src (opt_tileSize opts))
                  (gridCells (bwidth src div opt_tileSize opts)
                             (bheight src div opt_tileSize opts))))"
proof -
  let ?ts = "opt_tileSize opts"
  let ?cells = "gridCells (bwidth src div ?ts) (bheight src div ?ts)"
  let ?key = "cellHash env src ?ts"
  note pre = processImage_Inr_D [OF assms(1)]
  from processImage_optimized_any [OF assms(2) pre(1) pre(2) pre(3) pre(4)] assms(1)
  have t: "tiles r = map (optimizedTile env src ?ts (effectiveColumns opts))
                       (enumerate 0 (firstSeen ?key ?cells))"
    and u: "uniqueTiles r = length (firstSeen ?key ?cells)"
    and n: "totalTiles r = length ?cells"
    by (auto simp: uniqueCells_def length_gridCells mult.commute)
  have ids: "map tile_id (tiles r) = [0..<uniqueTiles r]"
    unfolding t optimizedTile_ids by (simp add: u)
  have card: "uniqueTiles r = card (?key ` set ?cells)"
    by (simp only: u length_firstSeen_card)
  have le: "uniqueTiles r \<le> totalTiles r"
    by (simp only: u n length_firstSeen_le)
  have eq: "uniqueTiles r = totalTiles r \<longleftrightarrow> distinct (map ?key ?cells)"
    by (simp only: u n firstSeen_length_iff)
  have valid: "\<forall>c\<in>set ?cells. validCell src ?ts c"
    by (simp add: set_gridCells validCell_def)
  have "distinct (map (cellBytes src ?ts) ?cells)" if "uniqueTiles r = totalTiles r"
    using that eq distinct_hashes_bytes [OF _ valid, of env] by blast
  with t ids n card le eq show ?thesis by blast
qed

theorem optimized_discovery_witness:
  "(\<exists>r. processImage demoBrowser motif192 optimized48 = Some (Inr r)
       \<and> totalTiles r = 4 \<and> uniqueTiles r = 3
       \<and> firstSeen (cellHash demoBrowser motif192 48) (gridCells 4 1) = [(0, 0), (0, 1), (0, 3)]
       \<and> map tile_id (tiles r) = [0, 1, 2]
       \<and> map tile_x (tiles r) = [Finite 0, Finite 48, Finite 96])
   \<and> (\<exists>r. processImage demoBrowser strip480 optimized48 = Some (Inr r)
       \<and> totalTiles r = 10 \<and> uniqueTiles r = 10
       \<and> distinct (map (cellBytes strip480 48) (gridCells 10 1)))"
proof -
  have m: "opt_mode optimized48 = Optimized" by (simp add: optimized48_def)
  from motif_result [of demoBrowser]
  obtain r where r: "processImage demoBrowser motif192 optimized48 = Some (Inr r)"
    and n: "totalTiles r = 4" and u: "uniqueTiles r = 3"
    by (auto simp: demoBrowser_def)
  have f: "firstSeen (cellHash demoBrowser motif192 48) (gridCells 4 1) = [(0, 0), (0, 1), (0, 3)]"
    using motif_unique by (simp add: uniqueCells_def motif192_def)
  from optimized_discovery [OF r m]
  have t: "tiles r = map (optimizedTile demoBrowser motif192 48 8)
                       (enumerate 0 (firstSeen (cellHash demoBrowser motif192 48) (gridCells 4 1)))"
    by (simp add: optimized48_def effectiveColumns_def motif192_def)
  have "map tile_id (tiles r) = [0, 1, 2]
        \<and> map tile_x (tiles r) = [Finite 0, Finite 48, Finite 96]"
    unfolding t f by (simp add: optimizedTile_def layout_positive)
  with r n u f
  have a: "\<exists>r. processImage demoBrowser motif192 optimized48 = Some (Inr r)
       \<and> totalTiles r = 4 \<and> uniqueTiles r = 3
       \<and> firstSeen (cellHash demoBrowser motif192 48) (gridCells 4 1) = [(0, 0), (0, 1), (0, 3)]
       \<and> map tile_id (tiles r) = [0, 1, 2]
       \<and> map tile_x (tiles r) = [Finite 0, Finite 48, Finite 96]"
    by (intro exI [of _ r]) simp
  from strip480_result
  obtain q where q: "processImage demoBrowser strip480 optimized48 = Some (Inr q)"
    and nq: "totalTiles q = 10" and uq: "uniqueTiles q = 10"
    by blast
  from optimized_discovery [OF q m]
  have "uniqueTiles q = totalTiles q
            \<longrightarrow> distinct (map (cellBytes strip480 48) (gridCells 10 1))"
    by (simp add: optimized48_def strip480_def)
  with nq uq have "distinct (map (cellBytes strip480 48) (gridCells 10 1))" by simp
  with q nq uq
  have b: "\<exists>r. processImage demoBrowser strip480 optimized48 = Some (Inr r)
       \<and> totalTiles r = 10 \<and> uniqueTiles r = 10
       \<and> distinct (map (cellBytes strip480 48) (gridCells 10 1))"
    by (intro exI [of _ q]) simp
  from a b show ?thesis by (rule conjI)
qed

theorem discovery_counterexample:
  "distinct (map (cellBytes hidden480 48) (gridCells 10 1))
   \<and> bwidth hidden480 div 48 = 10 \<and> bheight hidden480 div 48 = 1
   \<and> (\<exists>r. processImage demoBrowser hidden480 optimized48 = Some (Inr r)
         \<and> totalTiles r = 10 \<and> uniqueTiles r = 1)"
proof -
  have "\<exists>r. processImage demoBrowser hidden480 optimized48 = Some (Inr r)
         \<and> totalTiles r = 10 \<and> uniqueTiles r = 1"
    using hidden480_result [of demoBrowser] by (auto simp: demoBrowser_def)
  with hidden480_bytes show ?thesis by (simp add: hidden480_def)
qed

section \<open>Optimized mode: layout\<close>

text \<open>
  C6, as amended. In Optimized mode with \<open>C\<close> columns (a positive count) the tile with
  index \<open>i\<close> (in first-seen order) has the pixel origin
  \<open>((i mod C) * tileSize, (i div C) * tileSize)\<close>, and the output is \<open>C * tileSize\<close> wide
  and \<open>ceil (uniqueTiles / C) * tileSize\<close> high; what is read from the output image at
  that origin is what is read from a canvas on which the i-th retained cell is drawn
  alone. For a 480 by 48 source of ten tiles with ten different fingerprints, tile size
  48 and 8 columns, there are ten unique tiles, the output is 384 by 96, and the tiles 8
  and 9 stand in row 1 at the columns 0 and 1.
\<close>

theorem optimized_layout:
  assumes "processImage env src opts = Some (Inr r)" and "opt_mode opts = Optimized"
    and "0 < effectiveColumns opts"
  shows "(\<forall>i < uniqueTiles r.
            tile_id (tiles r ! i) = i
            \<and> tile_x (tiles r ! i) = Finite ((i mod effectiveColumns opts) * opt_tileSize opts)
            \<and> tile_y (tiles r ! i) = Finite ((i div effectiveColumns opts) * opt_tileSize opts))
       \<and> length (tiles r) = uniqueTiles r
       \<and> width r = effectiveColumns opts * opt_tileSize opts
       \<and> height r = nat \<lceil>real (uniqueTiles r) / real (effectiveColumns opts)\<rceil>
                       * opt_tileSize opts
       \<and> dataUrl r = toDataURL env (atlas env src (opt_tileSize opts) (effectiveColumns opts))
       \<and> (\<forall>i < uniqueTiles r. tileContext env i \<longrightarrow>
            regionBytes (straight (atlas env src (opt_tileSize opts) (effectiveColumns opts)))
              ((i mod effectiveColumns opts) * opt_tileSize opts)
              ((i div effectiveColumns opts) * opt_tileSize opts)
              (opt_tileSize opts) (opt_tileSize opts)
            = renderedBytes src (opt_tileSize opts) (uniqueCells env src (opt_tileSize opts) ! i))
       \<and> (bwidth src = 480 \<and> bheight src = 48 \<and> opt_tileSize opts = 48
            \<and> effectiveColumns opts = 8
            \<and> distinct (map (cellHash env src 48) (gridCells 10 1))
          \<longrightarrow> uniqueTiles r = 10 \<and> width r = 384 \<and> height r = 96
              \<and> tile_x (tiles r ! 8) = Finite 0 \<and> tile_y (tiles r ! 8) = Finite 48
              \<and> tile_x (tiles r ! 9) = Finite 48 \<and> tile_y (tiles r ! 9) = Finite 48)"
proof -
  let ?ts = "opt_tileSize opts"
  let ?C = "effectiveColumns opts"
  note pre = processImage_Inr_D [OF assms(1)]
  note oc = assms(3)
  from processImage_optimized [OF assms(2) pre(1) oc pre(2) pre(3) pre(4)] assms(1)
  have t: "tiles r = map (optimizedTile env src ?ts ?C) (enumerate 0 (uniqueCells env src ?ts))"
    and u: "uniqueTiles r = length (uniqueCells env src ?ts)"
    and w: "width r = ?C * ?ts"
    and h: "height r = nat \<lceil>real (uniqueTiles r) / real ?C\<rceil> * ?ts"
    by auto
  have at: "tile_id (tiles r ! i) = i \<and> tile_x (tiles r ! i) = Finite ((i mod ?C) * ?ts)
            \<and> tile_y (tiles r ! i) = Finite ((i div ?C) * ?ts)" if "i < uniqueTiles r" for i
    using that oc by (simp add: t u optimizedTile_def nth_enumerate_eq layout_positive)
  have len: "length (tiles r) = uniqueTiles r" by (simp add: t u)
  have "uniqueTiles r = 10 \<and> width r = 384 \<and> height r = 96
              \<and> tile_x (tiles r ! 8) = Finite 0 \<and> tile_y (tiles r ! 8) = Finite 48
              \<and> tile_x (tiles r ! 9) = Finite 48 \<and> tile_y (tiles r ! 9) = Finite 48"
    if e: "bwidth src = 480 \<and> bheight src = 48 \<and> ?ts = 48 \<and> ?C = 8
            \<and> distinct (map (cellHash env src 48) (gridCells 10 1))"
  proof -
    from e have "firstSeen (cellHash env src 48) (gridCells 10 1) = gridCells 10 1"
      by (intro firstSeen_distinct) simp
    with e have u10: "uniqueTiles r = 10"
      by (simp add: u uniqueCells_def length_gridCells)
    with at [of 8] at [of 9] w h e ceiling_ten_eighths show ?thesis by simp
  qed
  moreover have "dataUrl r = toDataURL env (atlas env src ?ts ?C)"
    using assms by (rule processImage_optimized_dataUrl)
  moreover have "regionBytes (straight (atlas env src ?ts ?C))
                   ((i mod ?C) * ?ts) ((i div ?C) * ?ts) ?ts ?ts
                   = renderedBytes src ?ts (uniqueCells env src ?ts ! i)"
    if "i < uniqueTiles r" and "tileContext env i" for i
  proof -
    from that(1) have i: "i < length (uniqueCells env src ?ts)" by (simp add: u)
    then have "uniqueCells env src ?ts ! i \<in> set (uniqueCells env src ?ts)"
      by (rule nth_mem)
    then have "validCell src ?ts (uniqueCells env src ?ts ! i)"
      by (rule uniqueCells_valid)
    with i that(2) show ?thesis
      unfolding atlas_def using oc by (rule atlas_cell)
  qed
  ultimately show ?thesis using at len w h by blast
qed

theorem optimized_layout_witness:
  "\<exists>r. processImage demoBrowser strip480 optimized48 = Some (Inr r)
       \<and> uniqueTiles r = 10 \<and> width r = 384 \<and> height r = 96
       \<and> tile_id (tiles r ! 8) = 8 \<and> tile_x (tiles r ! 8) = Finite 0
       \<and> tile_y (tiles r ! 8) = Finite 48
       \<and> tile_id (tiles r ! 9) = 9 \<and> tile_x (tiles r ! 9) = Finite 48
       \<and> tile_y (tiles r ! 9) = Finite 48
       \<and> regionBytes (straight (atlas demoBrowser strip480 48 8)) 0 48 48 48
            = renderedBytes strip480 48 (0, 8)"
proof -
  have "\<exists>r. processImage demoBrowser strip480 optimized48 = Some (Inr r)"
    by (rule processImage_succeeds)
       (simp_all add: optimized48_def strip480_def demoBrowser_def)
  then obtain r where r: "processImage demoBrowser strip480 optimized48 = Some (Inr r)" ..
  have m: "opt_mode optimized48 = Optimized" by (simp add: optimized48_def)
  have c: "0 < effectiveColumns optimized48" by (simp add: optimized48_def effectiveColumns_def)
  have e: "bwidth strip480 = 480 \<and> bheight strip480 = 48 \<and> opt_tileSize optimized48 = 48
            \<and> effectiveColumns optimized48 = 8
            \<and> distinct (map (cellHash demoBrowser strip480 48) (gridCells 10 1))"
    using strip480_hashes
    by (simp add: optimized48_def strip480_def effectiveColumns_def)
  from optimized_layout [OF r m c]
  have ids: "\<forall>i < uniqueTiles r. tile_id (tiles r ! i) = i"
    and ex: "bwidth strip480 = 480 \<and> bheight strip480 = 48 \<and> opt_tileSize optimized48 = 48
            \<and> effectiveColumns optimized48 = 8
            \<and> distinct (map (cellHash demoBrowser strip480 48) (gridCells 10 1))
          \<longrightarrow> uniqueTiles r = 10 \<and> width r = 384 \<and> height r = 96
              \<and> tile_x (tiles r ! 8) = Finite 0 \<and> tile_y (tiles r ! 8) = Finite 48
              \<and> tile_x (tiles r ! 9) = Finite 48 \<and> tile_y (tiles r ! 9) = Finite 48"
    by blast+
  from ex e have v: "uniqueTiles r = 10 \<and> width r = 384 \<and> height r = 96
              \<and> tile_x (tiles r ! 8) = Finite 0 \<and> tile_y (tiles r ! 8) = Finite 48
              \<and> tile_x (tiles r ! 9) = Finite 48 \<and> tile_y (tiles r ! 9) = Finite 48"
    by (rule mp)
  with ids have i: "tile_id (tiles r ! 8) = 8 \<and> tile_id (tiles r ! 9) = 9" by simp
  have o: "opt_tileSize optimized48 = 48" "effectiveColumns optimized48 = 8"
    by (simp_all add: optimized48_def effectiveColumns_def)
  from optimized_layout [OF r m c, unfolded o]
  have slots: "\<forall>i < uniqueTiles r. tileContext demoBrowser i \<longrightarrow>
            regionBytes (straight (atlas demoBrowser strip480 48 8))
              ((i mod 8) * 48) ((i div 8) * 48) 48 48
            = renderedBytes strip480 48 (uniqueCells demoBrowser strip480 48 ! i)"
    by blast
  have cell: "uniqueCells demoBrowser strip480 48 ! 8 = (0, 8)"
  proof -
    have "uniqueCells demoBrowser strip480 48 = gridCells 10 1"
      using firstSeen_distinct [OF strip480_hashes] by (simp add: uniqueCells_def strip480_def)
    then show ?thesis unfolding gridCells_10_1 by simp
  qed
  have "8 < uniqueTiles r" using v by simp
  moreover have "tileContext demoBrowser 8" by (simp add: demoBrowser_def)
  ultimately have "regionBytes (straight (atlas demoBrowser strip480 48 8))
              ((8 mod 8) * 48) ((8 div 8) * 48) 48 48
            = renderedBytes strip480 48 (uniqueCells demoBrowser strip480 48 ! 8)"
    using slots by blast
  then have "regionBytes (straight (atlas demoBrowser strip480 48 8)) 0 48 48 48
            = renderedBytes strip480 48 (0, 8)"
    by (simp add: cell)
  with r v i show ?thesis by (intro exI [of _ r]) simp
qed

theorem scenarioE_counterexample:
  "bwidth hidden480 = 480 \<and> bheight hidden480 = 48
   \<and> opt_tileSize optimized48 = 48 \<and> opt_mode optimized48 = Optimized
   \<and> effectiveColumns optimized48 = 8
   \<and> distinct (map (cellBytes hidden480 48) (gridCells 10 1))
   \<and> (\<exists>r. processImage demoBrowser hidden480 optimized48 = Some (Inr r)
         \<and> uniqueTiles r = 1 \<and> width r = 384 \<and> height r = 48)"
proof -
  have "\<exists>r. processImage demoBrowser hidden480 optimized48 = Some (Inr r)
         \<and> uniqueTiles r = 1 \<and> width r = 384 \<and> height r = 48"
    using hidden480_result [of demoBrowser] by (auto simp: demoBrowser_def)
  with hidden480_bytes show ?thesis
    by (simp add: hidden480_def optimized48_def effectiveColumns_def)
qed

section \<open>Determinism and the fingerprint\<close>

text \<open>
  C9. Two runs of Optimized mode on the same source with the same options, in browsers
  whose PNG encoder and tile contexts are the same, return the same tiles in the same
  order and the same output image, whatever the clock shows and in whatever order the
  fingerprint map of each run iterates. The order is that of the first occurrences of the
  fingerprints in the row-major scan.
\<close>

theorem rerun_same_order:
  assumes "encodePNG env1 = encodePNG env2" and "tileContext env1 = tileContext env2"
    and "processImage env1 src opts = Some (Inr r1)"
    and "processImage env2 src opts = Some (Inr r2)"
    and "opt_mode opts = Optimized"
  shows "tiles r1 = tiles r2 \<and> uniqueTiles r1 = uniqueTiles r2 \<and> totalTiles r1 = totalTiles r2
       \<and> dataUrl r1 = dataUrl r2 \<and> width r1 = width r2 \<and> height r1 = height r2
       \<and> tiles r1 = map (optimizedTile env1 src (opt_tileSize opts) (effectiveColumns opts))
                      (enumerate 0 (firstSeen (cellHash env1 src (opt_tileSize opts))
                         (gridCells (bwidth src div opt_tileSize opts)
                                    (bheight src div opt_tileSize opts))))"
proof -
  let ?ts = "opt_tileSize opts"
  let ?C = "effectiveColumns opts"
  note pre1 = processImage_Inr_D [OF assms(3)]
  note pre2 = processImage_Inr_D [OF assms(4)]
  note cells = uniqueCells_encoder [OF assms(1), of src ?ts]
  note tile = optimizedTile_contexts [OF assms(2), of src ?ts ?C]
  from processImage_optimized_any [OF assms(5) pre1] assms(3)
  have 1: "tiles r1 = map (optimizedTile env1 src ?ts ?C) (enumerate 0 (uniqueCells env1 src ?ts))"
    "uniqueTiles r1 = length (uniqueCells env1 src ?ts)"
    "totalTiles r1 = (bwidth src div ?ts) * (bheight src div ?ts)"
    "width r1 = ?C * ?ts"
    "height r1 = toUnsignedLong (multiply (ceilQuotient (length (uniqueCells env1 src ?ts)) ?C) ?ts)"
    by auto
  from processImage_optimized_any [OF assms(5) pre2] assms(4)
  have 2: "tiles r2 = map (optimizedTile env2 src ?ts ?C) (enumerate 0 (uniqueCells env2 src ?ts))"
    "uniqueTiles r2 = length (uniqueCells env2 src ?ts)"
    "totalTiles r2 = (bwidth src div ?ts) * (bheight src div ?ts)"
    "width r2 = ?C * ?ts"
    "height r2 = toUnsignedLong (multiply (ceilQuotient (length (uniqueCells env2 src ?ts)) ?C) ?ts)"
    by auto
  have url: "dataUrl r1 = dataUrl r2"
  proof (cases "0 < ?C")
    case True
    have "dataUrl r1 = toDataURL env1 (atlas env1 src ?ts ?C)"
      using assms(3) assms(5) True by (rule processImage_optimized_dataUrl)
    moreover have "dataUrl r2 = toDataURL env2 (atlas env2 src ?ts ?C)"
      using assms(4) assms(5) True by (rule processImage_optimized_dataUrl)
    ultimately show ?thesis
      using atlas_browser [OF assms(1) assms(2), of src ?ts ?C]
        toDataURL_encoder [OF assms(1), of "atlas env2 src ?ts ?C"]
      by simp
  next
    case False
    then have z: "?C = 0" by simp
    from processImage_zero_dataUrl(1) [OF assms(3) assms(5) z]
      processImage_zero_dataUrl(1) [OF assms(4) assms(5) z]
    show ?thesis by simp
  qed
  from 1 2 url show ?thesis
    by (simp add: cells tile uniqueCells_def [symmetric])
qed

theorem rerun_same_order_witness:
  "\<exists>r1 r2. processImage demoBrowser motif192 optimized48 = Some (Inr r1)
       \<and> processImage laterBrowser motif192 optimized48 = Some (Inr r2)
       \<and> now demoBrowser \<noteq> now laterBrowser
       \<and> mapKeys demoBrowser motif192 48 \<noteq> mapKeys laterBrowser motif192 48
       \<and> mapKeys laterBrowser motif192 48 = rev (mapKeys demoBrowser motif192 48)
       \<and> uniqueTiles r1 = 3
       \<and> tiles r1 = tiles r2 \<and> uniqueTiles r1 = uniqueTiles r2 \<and> dataUrl r1 = dataUrl r2
       \<and> map tile_id (tiles r2) = [0, 1, 2]
       \<and> map tile_x (tiles r2) = [Finite 0, Finite 48, Finite 96]"
proof -
  have l: "encodePNG laterBrowser = encodePNG demoBrowser"
    "tempContext laterBrowser" "resultContext laterBrowser"
    by (simp_all add: laterBrowser_def demoBrowser_def)
  from motif_result [of demoBrowser]
  obtain r1 where r1: "processImage demoBrowser motif192 optimized48 = Some (Inr r1)"
    and u: "uniqueTiles r1 = 3"
    by (auto simp: demoBrowser_def)
  from motif_result [OF l]
  obtain r2 where r2: "processImage laterBrowser motif192 optimized48 = Some (Inr r2)"
    by blast
  have m: "opt_mode optimized48 = Optimized" by (simp add: optimized48_def)
  have e: "encodePNG demoBrowser = encodePNG laterBrowser"
    "tileContext demoBrowser = tileContext laterBrowser"
    by (simp_all add: laterBrowser_def)
  have d: "now demoBrowser \<noteq> now laterBrowser"
    by (simp add: laterBrowser_def demoBrowser_def)
  have k1: "mapKeys demoBrowser motif192 48
              = map (cellHash demoBrowser motif192 48) [(0, 0), (0, 1), (0, 3)]"
  proof -
    have "mapSlot demoBrowser = (\<lambda>keys k. length keys)" by (simp add: demoBrowser_def)
    from mapKeys_insertion [OF this, of motif192 48] show ?thesis
      by (simp only: motif_unique)
  qed
  have k2: "mapKeys laterBrowser motif192 48
              = rev (map (cellHash demoBrowser motif192 48) [(0, 0), (0, 1), (0, 3)])"
  proof -
    have "mapSlot laterBrowser = (\<lambda>keys k. 0)" by (simp add: laterBrowser_def)
    from mapKeys_front [OF this, of motif192 48] show ?thesis
      by (simp only: motif_unique_later cellHash_encoder [OF l(1), of motif192 48])
  qed
  have k: "mapKeys demoBrowser motif192 48 \<noteq> mapKeys laterBrowser motif192 48"
    unfolding k1 k2 using motif_differ(2) by simp
  have kr: "mapKeys laterBrowser motif192 48 = rev (mapKeys demoBrowser motif192 48)"
    by (simp only: k1 k2)
  have o: "opt_tileSize optimized48 = 48" "effectiveColumns optimized48 = 8"
    "bwidth motif192 div 48 = 4" "bheight motif192 div 48 = 1"
    by (simp_all add: optimized48_def effectiveColumns_def motif192_def)
  from rerun_same_order [OF e r1 r2 m, unfolded o]
  have same: "tiles r1 = tiles r2 \<and> uniqueTiles r1 = uniqueTiles r2 \<and> dataUrl r1 = dataUrl r2"
    and t: "tiles r1 = map (optimizedTile demoBrowser motif192 48 8)
              (enumerate 0 (firstSeen (cellHash demoBrowser motif192 48) (gridCells 4 1)))"
    by blast+
  have f: "firstSeen (cellHash demoBrowser motif192 48) (gridCells 4 1) = [(0, 0), (0, 1), (0, 3)]"
    using motif_unique by (simp add: uniqueCells_def motif192_def)
  have "map tile_id (tiles r1) = [0, 1, 2]
        \<and> map tile_x (tiles r1) = [Finite 0, Finite 48, Finite 96]"
    unfolding t f by (simp add: optimizedTile_def layout_positive)
  with same have "map tile_id (tiles r2) = [0, 1, 2]
        \<and> map tile_x (tiles r2) = [Finite 0, Finite 48, Finite 96]"
    by simp
  with r1 r2 d k kr u same show ?thesis
    by (intro exI [of _ r1] exI [of _ r2]) simp
qed

text \<open>
  C1, as amended. The fingerprint of a cell is the data URL of the scratch canvas once
  the cell is drawn on it: the PNG encoding of the bytes read from a canvas that holds
  the cell alone, whatever the scratch canvas held before; it is the fingerprint the scan
  stores with a retained cell. Cells with identical bytes have the same fingerprint, and
  so have cells that differ only where both are fully transparent.
\<close>

theorem fingerprint_of_canvas:
  assumes "scratchCanvas ts temp1" and "scratchCanvas ts temp2"
    and "validCell src1 ts c1" and "validCell src2 ts c2"
  shows "tileHashOf env src1 ts temp1 c1 = encodePNG env ts ts (renderedBytes src1 ts c1)
       \<and> (cellBytes src1 ts c1 = cellBytes src2 ts c2
            \<longrightarrow> tileHashOf env src1 ts temp1 c1 = tileHashOf env src2 ts temp2 c2)
       \<and> ((\<forall>i<ts. \<forall>j<ts. cellPixel src1 ts c1 i j = cellPixel src2 ts c2 i j
              \<or> (alpha (cellPixel src1 ts c1 i j) = 0 \<and> alpha (cellPixel src2 ts c2 i j) = 0))
            \<longrightarrow> tileHashOf env src1 ts temp1 c1 = tileHashOf env src2 ts temp2 c2)
       \<and> (tempCanvas st = temp1 \<and> uniqueTilesMap st = []
            \<longrightarrow> map snd (uniqueTilesList (optimizedCell env src1 ts (fst c1) (snd c1) st))
                  = map snd (uniqueTilesList st) @ [tileHashOf env src1 ts temp1 c1])"
proof -
  have h1: "tileHashOf env src1 ts temp1 c1 = cellHash env src1 ts c1"
    using assms(1) assms(3) by (rule tileHashOf_cell)
  have h2: "tileHashOf env src2 ts temp2 c2 = cellHash env src2 ts c2"
    using assms(2) assms(4) by (rule tileHashOf_cell)
  have ts: "0 < ts" using assms(3) by (rule validCell_positive)
  have a: "tileHashOf env src1 ts temp1 c1 = encodePNG env ts ts (renderedBytes src1 ts c1)"
    by (simp only: h1 cellHash_rendered [OF ts])
  have b: "tileHashOf env src1 ts temp1 c1 = tileHashOf env src2 ts temp2 c2"
    if "cellBytes src1 ts c1 = cellBytes src2 ts c2"
    using same_bytes_hash [OF assms(3) assms(4) that, of env] by (simp only: h1 h2)
  have c: "tileHashOf env src1 ts temp1 c1 = tileHashOf env src2 ts temp2 c2"
    if "\<forall>i<ts. \<forall>j<ts. cellPixel src1 ts c1 i j = cellPixel src2 ts c2 i j
              \<or> (alpha (cellPixel src1 ts c1 i j) = 0 \<and> alpha (cellPixel src2 ts c2 i j) = 0)"
    using hidden_colour_canvas [OF that] by (simp only: h1 h2 cellHash_def)
  have d: "map snd (uniqueTilesList (optimizedCell env src1 ts (fst c1) (snd c1) st))
                  = map snd (uniqueTilesList st) @ [tileHashOf env src1 ts temp1 c1]"
    if "tempCanvas st = temp1 \<and> uniqueTilesMap st = []"
    using that optimizedCell_hash [of env src1 ts "fst c1" "snd c1" st]
    by (simp add: Map_has_def)
  from a b c d show ?thesis by blast
qed

theorem fingerprint_of_canvas_witness:
  "tileHashOf demoBrowser twin96 48 (createCanvas 48 48) (0, 0)
     = tileHashOf demoBrowser twin96 48 (cellCanvas twin96 48 (0, 0)) (0, 1)
   \<and> tileHashOf demoBrowser hidden480 48 (createCanvas 48 48) (0, 0)
     = tileHashOf demoBrowser hidden480 48 (cellCanvas hidden480 48 (0, 0)) (0, 1)
   \<and> map snd (uniqueTilesList (optimizedCell demoBrowser twin96 48 0 0 (initialScan 48)))
     = [tileHashOf demoBrowser twin96 48 (createCanvas 48 48) (0, 0)]"
proof -
  have v: "validCell twin96 48 (0, 0)" "validCell twin96 48 (0, 1)"
    by (simp_all add: validCell_def twin96_def)
  have w: "validCell hidden480 48 (0, 0)" "validCell hidden480 48 (0, 1)"
    by (simp_all add: validCell_def hidden480_def)
  have same: "cellBytes twin96 48 (0, 0) = cellBytes twin96 48 (0, 1)"
    using twin_cellBytes [of twin96] by (simp add: twin96_def)
  have hid: "\<forall>i<48. \<forall>j<48.
      cellPixel hidden480 48 (0, 0) i j = cellPixel hidden480 48 (0, 1) i j
      \<or> (alpha (cellPixel hidden480 48 (0, 0) i j) = 0
         \<and> alpha (cellPixel hidden480 48 (0, 1) i j) = 0)"
  proof (intro allI impI)
    fix i j :: nat
    assume i: "i < 48" and j: "j < 48"
    have "(48 + i) mod 48 = i" and "(48 + i) div 48 = 1" using i by simp_all
    then show "cellPixel hidden480 48 (0, 0) i j = cellPixel hidden480 48 (0, 1) i j
      \<or> (alpha (cellPixel hidden480 48 (0, 0) i j) = 0
         \<and> alpha (cellPixel hidden480 48 (0, 1) i j) = 0)"
      using i by (simp add: cellPixel_def hidden480_def)
  qed
  have st: "tempCanvas (initialScan 48) = createCanvas 48 48
            \<and> uniqueTilesMap (initialScan 48) = []"
    and l: "uniqueTilesList (initialScan 48) = []"
    by (simp_all add: initialScan_def)
  from fingerprint_of_canvas [OF scratchCanvas_create scratchCanvas_cell v,
      where env = demoBrowser and st = "initialScan 48"] same st
  have a: "tileHashOf demoBrowser twin96 48 (createCanvas 48 48) (0, 0)
     = tileHashOf demoBrowser twin96 48 (cellCanvas twin96 48 (0, 0)) (0, 1)"
    and c: "map snd (uniqueTilesList (optimizedCell demoBrowser twin96 48 0 0 (initialScan 48)))
     = [tileHashOf demoBrowser twin96 48 (createCanvas 48 48) (0, 0)]"
    by (simp_all add: l)
  from fingerprint_of_canvas [OF scratchCanvas_create scratchCanvas_cell w,
      where env = demoBrowser] hid
  have b: "tileHashOf demoBrowser hidden480 48 (createCanvas 48 48) (0, 0)
     = tileHashOf demoBrowser hidden480 48 (cellCanvas hidden480 48 (0, 0)) (0, 1)"
    by blast
  from a b c show ?thesis by blast
qed

theorem fingerprint_counterexample:
  "validCell hidden480 48 (0, 0) \<and> validCell hidden480 48 (0, 1)
   \<and> cellBytes hidden480 48 (0, 0) \<noteq> cellBytes hidden480 48 (0, 1)
   \<and> tileHashOf demoBrowser hidden480 48 (createCanvas 48 48) (0, 0)
     = tileHashOf demoBrowser hidden480 48 (cellCanvas hidden480 48 (0, 0)) (0, 1)"
proof -
  have w: "validCell hidden480 48 (0, 0)" "validCell hidden480 48 (0, 1)"
    by (simp_all add: validCell_def hidden480_def)
  have "hd (cellBytes hidden480 48 (0, 0)) = 0" and "hd (cellBytes hidden480 48 (0, 1)) = 1"
    using hd_cellBytes [OF w(1)] hd_cellBytes [OF w(2)]
    by (simp_all add: cellPixel_def hidden480_def)
  then have "hd (cellBytes hidden480 48 (0, 0)) \<noteq> hd (cellBytes hidden480 48 (0, 1))"
    by simp
  then have diff: "cellBytes hidden480 48 (0, 0) \<noteq> cellBytes hidden480 48 (0, 1)"
    by auto
  have "tileHashOf demoBrowser hidden480 48 (createCanvas 48 48) (0, 0)
          = cellHash demoBrowser hidden480 48 (0, 0)"
    using scratchCanvas_create w(1) by (rule tileHashOf_cell)
  moreover have "tileHashOf demoBrowser hidden480 48 (cellCanvas hidden480 48 (0, 0)) (0, 1)
          = cellHash demoBrowser hidden480 48 (0, 1)"
    using scratchCanvas_cell w(2) by (rule tileHashOf_cell)
  moreover have "cellHash demoBrowser hidden480 48 (0, 1) = cellHash demoBrowser hidden480 48 (0, 0)"
    using hidden480_canvas [of 1] by (simp only: cellHash_def)
  ultimately show ?thesis using w diff by simp
qed

section \<open>The manifest\<close>

text \<open>
  C8. The manifest of a returned result parses back to the object that was serialized.
  Its \<open>tiles\<close> property is the array of the \<open>{id, collision}\<close> entries of the result's
  tiles in list order, which is the ascending order of the ids; reading the entries back
  gives exactly the number of tiles and, for each id, the collision flag of the result.
\<close>

theorem manifest_roundtrip:
  assumes "processImage env src opts = Some (Inr r)"
  shows "JSON_parse (jsonContent r)
           = Some (jsonOutput env (opt_tileSize opts) (opt_mode opts)
                     (width r) (height r) (tiles r))
       \<and> Option.bind (JSON_parse (jsonContent r)) (property ''tiles'')
           = Some (JArray (map (\<lambda>t. JObject [(''id'', JNumber (tile_id t)),
                                                (''collision'', JBool (isSolid t))]) (tiles r)))
       \<and> Option.bind (JSON_parse (jsonContent r)) manifestTiles
           = Some (map (\<lambda>t. (tile_id t, isSolid t)) (tiles r))
       \<and> map tile_id (tiles r) = [0..<length (tiles r)]"
proof -
  let ?ts = "opt_tileSize opts"
  have p: "JSON_parse (jsonContent r)
           = Some (jsonOutput env ?ts (opt_mode opts) (width r) (height r) (tiles r))"
    by (simp only: processImage_json [OF assms] JSON_roundtrip)
  note pre = processImage_Inr_D [OF assms]
  have ids: "map tile_id (tiles r) = [0..<length (tiles r)]"
  proof (cases "opt_mode opts")
    case Original
    from processImage_original [OF Original pre(1) pre(2) pre(3) pre(4)] assms
    have t: "tiles r = map (originalTile src ?ts (bwidth src div ?ts))
                         (gridCells (bwidth src div ?ts) (bheight src div ?ts))"
      by auto
    show ?thesis unfolding t originalTile_ids by (simp add: length_gridCells)
  next
    case Optimized
    from processImage_optimized_any [OF Optimized pre(1) pre(2) pre(3) pre(4)] assms
    have t: "tiles r = map (optimizedTile env src ?ts (effectiveColumns opts))
                         (enumerate 0 (uniqueCells env src ?ts))"
      by auto
    show ?thesis unfolding t optimizedTile_ids by simp
  qed
  from p ids show ?thesis
    by (simp add: property_tiles manifestTiles_jsonOutput)
qed

theorem manifest_roundtrip_witness:
  "\<exists>r. processImage demoBrowser twin96 optimized48 = Some (Inr r)
       \<and> length (tiles r) = 1
       \<and> Option.bind (JSON_parse (jsonContent r)) manifestTiles
           = Some [(0, isSolid (tiles r ! 0))]"
proof -
  have "\<exists>r. processImage demoBrowser twin96 optimized48 = Some (Inr r)
          \<and> (\<exists>b. tiles r = [\<lparr>tile_id = 0, tile_x = Finite 0, tile_y = Finite 0, isSolid = b\<rparr>])"
    using twin_halves_result [of twin96 optimized48 demoBrowser]
    by (force simp: twin96_def optimized48_def demoBrowser_def effectiveColumns_def)
  then obtain r b where r: "processImage demoBrowser twin96 optimized48 = Some (Inr r)"
    and t: "tiles r = [\<lparr>tile_id = 0, tile_x = Finite 0, tile_y = Finite 0, isSolid = b\<rparr>]"
    by blast
  from manifest_roundtrip [OF r]
  have "Option.bind (JSON_parse (jsonContent r)) manifestTiles
           = Some (map (\<lambda>t. (tile_id t, isSolid t)) (tiles r))"
    by blast
  with t have "Option.bind (JSON_parse (jsonContent r)) manifestTiles
           = Some [(0, isSolid (tiles r ! 0))]"
    by simp
  with r t show ?thesis by (intro exI [of _ r]) simp
qed

end
